theory Spec2Isabelle
  imports Main
begin

section \<open>Characters, strings and the string methods of the source\<close>

text \<open>
  Documents are modelled as lists of 8-bit characters; the text is taken to be ASCII, so
  Python's whitespace class (\<^verbatim>\<open>str.isspace\<close>, and \<^verbatim>\<open>\s\<close> in a pattern) and its
  case folding are the ASCII ones.
\<close>

definition backslash :: char where
  "backslash = CHR 0x5C"

definition newline :: char where
  "newline = CHR 0x0A"

definition is_space :: "char \<Rightarrow> bool" where
  "is_space c = (c \<in> set [CHR 0x09, CHR 0x0A, CHR 0x0B, CHR 0x0C, CHR 0x0D,
                            CHR 0x1C, CHR 0x1D, CHR 0x1E, CHR 0x1F, CHR 0x20])"

text \<open>\<^verbatim>\<open>x.strip()\<close>\<close>

definition strip :: "string \<Rightarrow> string" where
  "strip s = rev (dropWhile is_space (rev (dropWhile is_space s)))"

text \<open>\<^verbatim>\<open>s.split(sep)\<close> for a one-character separator: always at least one field.\<close>

fun split_on :: "char \<Rightarrow> string \<Rightarrow> string list" where
  "split_on sep [] = [[]]"
| "split_on sep (c # cs) =
     (if c = sep then [] # split_on sep cs
      else (case split_on sep cs of
              w # ws \<Rightarrow> (c # w) # ws
            | [] \<Rightarrow> [[c]]))"

text \<open>\<^verbatim>\<open>[x.strip() for x in g.split(",") if x.strip()]\<close>\<close>

definition comma_list :: "string \<Rightarrow> string list" where
  "comma_list g = filter (\<lambda>x. x \<noteq> []) (map strip (split_on CHR '','' g))"

text \<open>\<^verbatim>\<open>str(n)\<close> for a non-negative integer: its decimal digits.\<close>

definition digit_char :: "nat \<Rightarrow> char" where
  "digit_char d = ''0123456789'' ! d"

fun str_nat :: "nat \<Rightarrow> string" where
  "str_nat n = (if n < 10 then [digit_char n] else str_nat (n div 10) @ [digit_char (n mod 10)])"

declare str_nat.simps [simp del]

definition lower_char :: "char \<Rightarrow> char" where
  "lower_char c =
     (case map_of (zip ''ABCDEFGHIJKLMNOPQRSTUVWXYZ'' ''abcdefghijklmnopqrstuvwxyz'') c of
        Some l \<Rightarrow> l
      | None \<Rightarrow> c)"


section \<open>Regular expressions of the source\<close>

text \<open>
  A pattern is modelled by its anchored matcher: given whether the position is the start
  of the text and the text from that position on, it returns the captured groups and the
  length of the match, or \<open>None\<close>. Every pattern of the source is deterministic (each
  repetition is followed by a character outside its class), so the greedy match is the only
  one. \<open>re_scan\<close> is the left-to-right scan shared by \<^verbatim>\<open>search\<close>, \<^verbatim>\<open>finditer\<close>
  and \<^verbatim>\<open>sub\<close>: non-overlapping matches, leftmost first, the scan resuming where a match
  ended.
\<close>

type_synonym 'g matcher = "bool \<Rightarrow> string \<Rightarrow> ('g \<times> nat) option"

datatype 'g token = Chr char | Hit 'g

fun re_scan :: "'g matcher \<Rightarrow> bool \<Rightarrow> string \<Rightarrow> 'g token list" where
  "re_scan m at_start [] = []"
| "re_scan m at_start (c # cs) =
     (case m at_start (c # cs) of
        None \<Rightarrow> Chr c # re_scan m False cs
      | Some (g, n) \<Rightarrow> Hit g # re_scan m False (drop (n - 1) cs))"

definition re_finditer :: "'g matcher \<Rightarrow> string \<Rightarrow> 'g list" where
  "re_finditer m s = concat (map (\<lambda>t. case t of Chr c \<Rightarrow> [] | Hit g \<Rightarrow> [g]) (re_scan m True s))"

definition re_search :: "'g matcher \<Rightarrow> string \<Rightarrow> 'g option" where
  "re_search m s = (case re_finditer m s of [] \<Rightarrow> None | g # _ \<Rightarrow> Some g)"

text \<open>Pieces of patterns; each returns what is left of the text after it.\<close>

definition lit :: "string \<Rightarrow> string \<Rightarrow> string option" where
  "lit p s = (if take (length p) s = p then Some (drop (length p) s) else None)"

text \<open>\<^verbatim>\<open>\{([^}]+)\}\<close> when \<open>nonempty\<close>, \<^verbatim>\<open>\{([^}]*)\}\<close> otherwise.\<close>

definition braced :: "bool \<Rightarrow> string \<Rightarrow> (string \<times> string) option" where
  "braced nonempty s =
     (case s of
        [] \<Rightarrow> None
      | c # cs \<Rightarrow>
          if c \<noteq> CHR ''{'' then None
          else (let g = takeWhile (\<lambda>x. x \<noteq> CHR ''}'') cs;
                    r = dropWhile (\<lambda>x. x \<noteq> CHR ''}'') cs
                in if r = [] \<or> (nonempty \<and> g = []) then None else Some (g, tl r)))"

definition matched :: "string \<Rightarrow> ('g \<times> string) option \<Rightarrow> ('g \<times> nat) option" where
  "matched s r = (case r of None \<Rightarrow> None | Some (g, rest) \<Rightarrow> Some (g, length s - length rest))"

text \<open>\<^verbatim>\<open>LABEL_RX = \\label\{([^}]+)\}\<close>\<close>

definition LABEL_RX :: "string matcher" where
  "LABEL_RX at_start s =
     matched s (case lit (backslash # ''label'') s of None \<Rightarrow> None | Some r \<Rightarrow> braced True r)"

text \<open>\<^verbatim>\<open>USES_RX = \\uses\{([^}]*)\}\<close>\<close>

definition USES_RX :: "string matcher" where
  "USES_RX at_start s =
     matched s (case lit (backslash # ''uses'') s of None \<Rightarrow> None | Some r \<Rightarrow> braced False r)"

text \<open>\<^verbatim>\<open>PROVES_RX = \\proves\{([^}]*)\}\<close>\<close>

definition PROVES_RX :: "string matcher" where
  "PROVES_RX at_start s =
     matched s (case lit (backslash # ''proves'') s of None \<Rightarrow> None | Some r \<Rightarrow> braced False r)"


section \<open>Canonical categories and alias matching\<close>

datatype canonical =
  Definition | Theorem | Lemma | Proposition | Corollary | Construction | Example | Remark

text \<open>
  \<^verbatim>\<open>ALIASES\<close>, in declaration order. Each pattern is \<^verbatim>\<open>^(a|b|...)$\<close> with
  \<^verbatim>\<open>re.I\<close>, used with \<^verbatim>\<open>fullmatch\<close>: the name, lower-cased, is one of the alternatives.
\<close>

definition ALIASES :: "(canonical \<times> string list) list" where
  "ALIASES =
     [(Definition, [''definition'', ''defn'', ''def'']),
      (Theorem, [''theorem'', ''thm'', ''th'', ''thrm'']),
      (Lemma, [''lemma'', ''lem'', ''ilemma'', ''alemma'']),
      (Proposition, [''proposition'', ''propn'', ''prop'', ''prp'']),
      (Corollary, [''corollary'', ''cor'', ''corol'', ''corl'']),
      (Construction, [''construction'', ''constn'', ''const'', ''constr'']),
      (Example, [''example'', ''examples'', ''iexample'']),
      (Remark, [''remark'', ''remarks''])]"

definition PROOF_ALIAS :: "string list" where
  "PROOF_ALIAS = [''proof'', ''pr'', ''pf'', ''prf'', ''pfof'', ''pfoftheorem'']"

definition fullmatch_alts :: "string list \<Rightarrow> string \<Rightarrow> bool" where
  "fullmatch_alts alts envname = (map lower_char envname \<in> set alts)"

fun first_alias :: "(canonical \<times> string list) list \<Rightarrow> string \<Rightarrow> canonical option" where
  "first_alias [] envname = None"
| "first_alias ((canon, alts) # rest) envname =
     (if fullmatch_alts alts envname then Some canon else first_alias rest envname)"

definition canonical_of_env :: "string \<Rightarrow> canonical option" where
  "canonical_of_env envname = first_alias ALIASES envname"


section \<open>The structural walker\<close>

text \<open>
  \<^verbatim>\<open>parse_latex_structure\<close> hands the text to pylatexenc's \<^verbatim>\<open>LatexWalker\<close> and walks
  the node list it returns. That library is not part of the program; its result is the
  input of the model. Of a node the walker reads only: whether it is an environment node,
  then its \<^verbatim>\<open>environmentname\<close> and \<^verbatim>\<open>latex_verbatim()\<close>, and its \<^verbatim>\<open>nodelist\<close>
  (empty for a node without that attribute).
\<close>

datatype latex_node =
  LatexEnvironmentNode string string "latex_node list"
| OtherNode "latex_node list"

record NodeInfo =
  canon :: canonical
  env :: string
  label :: string
  index :: nat

record proof_entry =
  pindex :: nat
  target_label :: "string option"
  uses :: "string list"
  target_node_idx :: "nat option"

text \<open>The variables the nested \<^verbatim>\<open>walk\<close> closes over.\<close>

record walk_state =
  nodes :: "NodeInfo list"
  node_by_index :: "nat \<rightharpoonup> NodeInfo"
  label_to_node :: "string \<rightharpoonup> NodeInfo"
  uses_on_node :: "(nat \<times> string list) list"
  proofs :: "proof_entry list"
  order_counter :: nat
  last_stmt_idx :: "nat option"

definition init_state :: walk_state where
  "init_state =
     \<lparr>nodes = [], node_by_index = Map.empty, label_to_node = Map.empty, uses_on_node = [],
      proofs = [], order_counter = 0, last_stmt_idx = None\<rparr>"

text \<open>
  \<^verbatim>\<open>uses_on_node[k].extend(ls)\<close> on a \<^verbatim>\<open>defaultdict(list)\<close>; the association list keeps
  the insertion order of the keys, which is the order \<^verbatim>\<open>items()\<close> yields them in.
\<close>

fun extend_uses :: "nat \<Rightarrow> string list \<Rightarrow> (nat \<times> string list) list \<Rightarrow> (nat \<times> string list) list" where
  "extend_uses k ls [] = [(k, ls)]"
| "extend_uses k ls ((k', vs) # rest) =
     (if k' = k then (k', vs @ ls) # rest else (k', vs) # extend_uses k ls rest)"

text \<open>\<^verbatim>\<open>lbl = m.group(1) if m else None\<close>, read under \<^verbatim>\<open>if lbl\<close>: an explicit label.\<close>

definition explicit_label :: "string \<Rightarrow> string option" where
  "explicit_label s =
     (case re_search LABEL_RX s of
        None \<Rightarrow> None
      | Some l \<Rightarrow> if l \<noteq> [] then Some l else None)"

text \<open>\<^verbatim>\<open>f"{env}:{my_index}"\<close>\<close>

definition synthetic_label :: "string \<Rightarrow> nat \<Rightarrow> string" where
  "synthetic_label envname i = envname @ '':'' @ str_nat i"

definition stmt_label :: "string \<Rightarrow> string \<Rightarrow> nat \<Rightarrow> string" where
  "stmt_label envname s i =
     (case explicit_label s of Some l \<Rightarrow> l | None \<Rightarrow> synthetic_label envname i)"

definition record_statement :: "canonical \<Rightarrow> string \<Rightarrow> string \<Rightarrow> walk_state \<Rightarrow> walk_state" where
  "record_statement c envname s st =
     (let my_index = order_counter st;
          ni = \<lparr>canon = c, env = envname, label = stmt_label envname s my_index, index = my_index\<rparr>
      in st\<lparr>order_counter := my_index + 1,
             last_stmt_idx := Some my_index,
             nodes := nodes st @ [ni],
             node_by_index := (node_by_index st)(my_index \<mapsto> ni),
             label_to_node :=
               (case explicit_label s of
                  Some l \<Rightarrow> (label_to_node st)(l \<mapsto> ni)
                | None \<Rightarrow> label_to_node st),
             uses_on_node :=
               fold (\<lambda>g u. let labels = comma_list g
                            in if labels \<noteq> [] then extend_uses my_index labels u else u)
                    (re_finditer USES_RX s) (uses_on_node st)\<rparr>)"

definition record_proof :: "string \<Rightarrow> walk_state \<Rightarrow> walk_state" where
  "record_proof s st =
     (let my_index = order_counter st;
          p = \<lparr>pindex = my_index,
               target_label = map_option strip (re_search PROVES_RX s),
               uses = concat (map comma_list (re_finditer USES_RX s)),
               target_node_idx = last_stmt_idx st\<rparr>
      in st\<lparr>order_counter := my_index + 1, proofs := proofs st @ [p]\<rparr>)"

text \<open>What \<^verbatim>\<open>walk\<close> does at an environment node before it descends.\<close>

definition is_statement :: "canonical set \<Rightarrow> string \<Rightarrow> bool" where
  "is_statement selected envname =
     (case canonical_of_env envname of None \<Rightarrow> False | Some c \<Rightarrow> c \<in> selected)"

definition is_proof :: "canonical set \<Rightarrow> string \<Rightarrow> bool" where
  "is_proof selected envname =
     (\<not> is_statement selected envname \<and> fullmatch_alts PROOF_ALIAS envname)"

definition visit_env :: "canonical set \<Rightarrow> string \<Rightarrow> string \<Rightarrow> walk_state \<Rightarrow> walk_state" where
  "visit_env selected envname s st =
     (case canonical_of_env envname of
        Some c \<Rightarrow>
          if c \<in> selected then record_statement c envname s st
          else if fullmatch_alts PROOF_ALIAS envname then record_proof s st
          else st
      | None \<Rightarrow>
          if fullmatch_alts PROOF_ALIAS envname then record_proof s st else st)"

fun walk :: "canonical set \<Rightarrow> latex_node \<Rightarrow> walk_state \<Rightarrow> walk_state"
  and walk_all :: "canonical set \<Rightarrow> latex_node list \<Rightarrow> walk_state \<Rightarrow> walk_state" where
  "walk selected (LatexEnvironmentNode envname s kids) st =
     walk_all selected kids (visit_env selected envname s st)"
| "walk selected (OtherNode kids) st = walk_all selected kids st"
| "walk_all selected [] st = st"
| "walk_all selected (n # ns) st = walk_all selected ns (walk selected n st)"

text \<open>The loop after the walk: a declared target found in \<^verbatim>\<open>label_to_node\<close> replaces the fallback.\<close>

definition resolve_proof :: "(string \<rightharpoonup> NodeInfo) \<Rightarrow> proof_entry \<Rightarrow> proof_entry" where
  "resolve_proof l2n p =
     (case target_label p of
        None \<Rightarrow> p
      | Some t \<Rightarrow>
          if t \<noteq> [] then
            (case l2n t of None \<Rightarrow> p | Some n \<Rightarrow> p\<lparr>target_node_idx := Some (index n)\<rparr>)
          else p)"

text \<open>The five values \<^verbatim>\<open>parse_latex_structure\<close> returns.\<close>

record parsed =
  p_nodes :: "NodeInfo list"
  p_node_by_index :: "nat \<rightharpoonup> NodeInfo"
  p_label_to_node :: "string \<rightharpoonup> NodeInfo"
  p_uses_on_node :: "(nat \<times> string list) list"
  p_proofs :: "proof_entry list"

definition parse_latex_structure :: "latex_node list \<Rightarrow> canonical set \<Rightarrow> parsed" where
  "parse_latex_structure nodelist selected_canonicals =
     (let st = walk_all selected_canonicals nodelist init_state
      in \<lparr>p_nodes = nodes st,
          p_node_by_index = node_by_index st,
          p_label_to_node = label_to_node st,
          p_uses_on_node = uses_on_node st,
          p_proofs = map (resolve_proof (label_to_node st)) (proofs st)\<rparr>)"


section \<open>Graph assembly\<close>

text \<open>
  The graph object belongs to pygraphviz; the model keeps what \<^verbatim>\<open>build_graph\<close> asks of
  it: the names passed to \<^verbatim>\<open>add_node\<close> and the (source, target, style) triples passed to
  \<^verbatim>\<open>add_edge\<close>, each in call order. Shapes and colours are left out.
\<close>

datatype edge_style = Dashed | Solid

record AGraph =
  node_calls :: "string list"
  edge_calls :: "(string \<times> string \<times> edge_style) list"

definition add_edges :: "(string \<rightharpoonup> NodeInfo) \<Rightarrow> string list \<Rightarrow> string \<Rightarrow> edge_style \<Rightarrow> AGraph \<Rightarrow> AGraph" where
  "add_edges l2n labels target sty G =
     fold (\<lambda>lbl G. case l2n lbl of
                     None \<Rightarrow> G
                   | Some src \<Rightarrow> G\<lparr>edge_calls := edge_calls G @ [(label src, target, sty)]\<rparr>)
          labels G"

definition uses_step :: "parsed \<Rightarrow> nat \<times> string list \<Rightarrow> AGraph \<Rightarrow> AGraph" where
  "uses_step r e G =
     (case p_node_by_index r (fst e) of
        None \<Rightarrow> G
      | Some target_node \<Rightarrow> add_edges (p_label_to_node r) (snd e) (label target_node) Dashed G)"

definition proof_step :: "parsed \<Rightarrow> proof_entry \<Rightarrow> AGraph \<Rightarrow> AGraph" where
  "proof_step r p G =
     (case target_node_idx p of
        None \<Rightarrow> G
      | Some tgt_idx \<Rightarrow>
          (case p_node_by_index r tgt_idx of
             None \<Rightarrow> G
           | Some target_node \<Rightarrow> add_edges (p_label_to_node r) (uses p) (label target_node) Solid G))"

definition build_graph :: "parsed \<Rightarrow> AGraph" where
  "build_graph r =
     (let G0 = \<lparr>node_calls = map label (p_nodes r), edge_calls = []\<rparr>;
          G1 = fold (uses_step r) (p_uses_on_node r) G0
      in fold (proof_step r) (p_proofs r) G1)"


section \<open>Project expansion\<close>

text \<open>\<^verbatim>\<open>COMMENT_RX = (^|[^\\])%.*\<close>: group 1 is empty at the start of the text and the
  character before the percent sign otherwise; the dot stops at a newline.\<close>

definition COMMENT_RX :: "string matcher" where
  "COMMENT_RX at_start s =
     (case s of
        [] \<Rightarrow> None
      | c # cs \<Rightarrow>
          if at_start \<and> c = CHR ''%'' then
            Some ([], 1 + length (takeWhile (\<lambda>x. x \<noteq> newline) cs))
          else (case cs of
                  [] \<Rightarrow> None
                | d # ds \<Rightarrow>
                    if c \<noteq> backslash \<and> d = CHR ''%'' then
                      Some ([c], 2 + length (takeWhile (\<lambda>x. x \<noteq> newline) ds))
                    else None))"

text \<open>\<^verbatim>\<open>re.sub(COMMENT_RX, lambda m: m.group(1), text)\<close>\<close>

definition strip_comments :: "string \<Rightarrow> string" where
  "strip_comments text =
     concat (map (\<lambda>t. case t of Chr c \<Rightarrow> [c] | Hit g \<Rightarrow> g) (re_scan COMMENT_RX True text))"

text \<open>\<^verbatim>\<open>\s*\{([^}]+)\}\<close> after a macro name.\<close>

definition spaced_braced :: "bool \<Rightarrow> string \<Rightarrow> (string \<times> string) option" where
  "spaced_braced nonempty s = braced nonempty (dropWhile is_space s)"

text \<open>\<^verbatim>\<open>INPUT_BRACED_RX = \\input\s*\{([^}]+)\}\<close>\<close>

definition INPUT_BRACED_RX :: "string matcher" where
  "INPUT_BRACED_RX at_start s =
     matched s (case lit (backslash # ''input'') s of None \<Rightarrow> None | Some r \<Rightarrow> spaced_braced True r)"

text \<open>\<^verbatim>\<open>INPUT_SPACEFORM_RX = \\input\s+([^\s%]+)\<close>\<close>

definition INPUT_SPACEFORM_RX :: "string matcher" where
  "INPUT_SPACEFORM_RX at_start s =
     matched s
       (case lit (backslash # ''input'') s of
          None \<Rightarrow> None
        | Some r \<Rightarrow>
            (let r' = dropWhile is_space r;
                 g = takeWhile (\<lambda>x. \<not> is_space x \<and> x \<noteq> CHR ''%'') r'
             in if r' = r \<or> g = [] then None else Some (g, drop (length g) r')))"

text \<open>\<^verbatim>\<open>INCLUDE_RX = \\include\s*\{([^}]+)\}\<close>\<close>

definition INCLUDE_RX :: "string matcher" where
  "INCLUDE_RX at_start s =
     matched s (case lit (backslash # ''include'') s of None \<Rightarrow> None | Some r \<Rightarrow> spaced_braced True r)"

text \<open>\<^verbatim>\<open>INCLUDEONLY_RX = \\includeonly\s*\{([^}]*)\}\<close>\<close>

definition INCLUDEONLY_RX :: "string matcher" where
  "INCLUDEONLY_RX at_start s =
     matched s (case lit (backslash # ''includeonly'') s of None \<Rightarrow> None | Some r \<Rightarrow> spaced_braced False r)"

text \<open>\<^verbatim>\<open>\\NAME\s*\{([^}]+)\}\s*\{([^}]+)\}\<close>, for \<^verbatim>\<open>IMPORT_RX\<close> and \<^verbatim>\<open>SUBIMPORT_RX\<close>.\<close>

definition two_args :: "string \<Rightarrow> (string \<times> string) matcher" where
  "two_args name at_start s =
     matched s
       (case lit (backslash # name) s of
          None \<Rightarrow> None
        | Some r \<Rightarrow>
            (case spaced_braced True r of
               None \<Rightarrow> None
             | Some (g1, r1) \<Rightarrow>
                 (case spaced_braced True r1 of
                    None \<Rightarrow> None
                  | Some (g2, r2) \<Rightarrow> Some ((g1, g2), r2))))"

definition IMPORT_RX :: "(string \<times> string) matcher" where
  "IMPORT_RX = two_args ''import''"

definition SUBIMPORT_RX :: "(string \<times> string) matcher" where
  "SUBIMPORT_RX = two_args ''subimport''"

text \<open>
  What the resolver asks of the operating system: reading a file and the functions of
  \<^verbatim>\<open>os.path\<close>. They are parameters of the model.
\<close>

datatype read_result = Content string | FileNotFound | ReadError

record os_env =
  read_file :: "string \<Rightarrow> read_result"
  abspath :: "string \<Rightarrow> string"
  normpath :: "string \<Rightarrow> string"
  join :: "string \<Rightarrow> string \<Rightarrow> string"
  dirname :: "string \<Rightarrow> string"
  basename :: "string \<Rightarrow> string"
  splitext :: "string \<Rightarrow> string \<times> string"

definition ensure_tex_ext :: "os_env \<Rightarrow> string \<Rightarrow> string" where
  "ensure_tex_ext os path = (if snd (splitext os path) \<noteq> [] then path else path @ ''.tex'')"

definition norm_join :: "os_env \<Rightarrow> string \<Rightarrow> string \<Rightarrow> string" where
  "norm_join os base_dir rel = normpath os (join os base_dir rel)"

text \<open>
  A call either returns, or raises (an error of \<^verbatim>\<open>read_file\<close> that nothing catches),
  or has used up its recursion depth.
\<close>

datatype 'a outcome = Done 'a | Raised | OutOfFuel

text \<open>
  \<^verbatim>\<open>RX.sub(repl, text)\<close> where \<open>repl\<close> changes the visited set: the matches are found in
  the text as it is, and \<open>repl\<close> is called on them from left to right.
\<close>

fun sub_tokens :: "('g \<Rightarrow> 's \<Rightarrow> (string \<times> 's) outcome) \<Rightarrow> 'g token list \<Rightarrow> 's \<Rightarrow> (string \<times> 's) outcome" where
  "sub_tokens repl [] st = Done ([], st)"
| "sub_tokens repl (Chr c # ts) st =
     (case sub_tokens repl ts st of
        Done (r, st') \<Rightarrow> Done (c # r, st')
      | Raised \<Rightarrow> Raised
      | OutOfFuel \<Rightarrow> OutOfFuel)"
| "sub_tokens repl (Hit g # ts) st =
     (case repl g st of
        Done (out, st') \<Rightarrow>
          (case sub_tokens repl ts st' of
             Done (r, st'') \<Rightarrow> Done (out @ r, st'')
           | Raised \<Rightarrow> Raised
           | OutOfFuel \<Rightarrow> OutOfFuel)
      | Raised \<Rightarrow> Raised
      | OutOfFuel \<Rightarrow> OutOfFuel)"

definition re_sub :: "'g matcher \<Rightarrow> ('g \<Rightarrow> 's \<Rightarrow> (string \<times> 's) outcome) \<Rightarrow> string \<Rightarrow> 's \<Rightarrow> (string \<times> 's) outcome" where
  "re_sub m repl text st = sub_tokens repl (re_scan m True text) st"

definition then_sub :: "(string \<times> 's) outcome \<Rightarrow> (string \<Rightarrow> 's \<Rightarrow> (string \<times> 's) outcome) \<Rightarrow> (string \<times> 's) outcome" where
  "then_sub r f = (case r of Done (text, st) \<Rightarrow> f text st | Raised \<Rightarrow> Raised | OutOfFuel \<Rightarrow> OutOfFuel)"

definition collect_includeonly :: "string \<Rightarrow> string set" where
  "collect_includeonly text =
     set (concat (map comma_list (re_finditer INCLUDEONLY_RX (strip_comments text))))"

definition missing_marker :: "string \<Rightarrow> string" where
  "missing_marker abs_path = ''% [depgraph] missing file: '' @ abs_path @ [newline]"

definition skipped_marker :: "string \<Rightarrow> string" where
  "skipped_marker name = ''% [depgraph] skipped by '' @ backslash # ''includeonly: '' @ name @ [newline]"

text \<open>
  The nested \<^verbatim>\<open>expand\<close>. The first argument bounds the depth of the recursion; the
  visited set is passed in and returned. The five substitutions run in the order of the
  source, each over the text the one before left.
\<close>

primrec expand :: "nat \<Rightarrow> os_env \<Rightarrow> string set \<Rightarrow> string \<Rightarrow> string \<Rightarrow> string set \<Rightarrow> (string \<times> string set) outcome" where
  "expand 0 os includeonly path current_dir visited = OutOfFuel"
| "expand (Suc fuel) os includeonly path current_dir visited =
     (let abs_path = abspath os path in
      if abs_path \<in> visited then Done ([], visited)
      else
        (case read_file os abs_path of
           FileNotFound \<Rightarrow> Done (missing_marker abs_path, insert abs_path visited)
         | ReadError \<Rightarrow> Raised
         | Content raw \<Rightarrow>
             (let repl_import = (\<lambda>g v.
                    let inc_dir = norm_join os current_dir (fst g);
                        inc_path = ensure_tex_ext os (norm_join os inc_dir (snd g))
                    in expand fuel os includeonly inc_path inc_dir v);
                  repl_input = (\<lambda>g v.
                    let rel = strip g;
                        inc_path = ensure_tex_ext os (norm_join os current_dir rel);
                        inc_dir = dirname os inc_path
                    in expand fuel os includeonly inc_path inc_dir v);
                  repl_include = (\<lambda>g v.
                    let name = strip g;
                        base_name = basename os name
                    in if includeonly \<noteq> {} \<and> base_name \<notin> includeonly
                       then Done (skipped_marker name, v)
                       else (let inc_path = ensure_tex_ext os (norm_join os current_dir name);
                                 inc_dir = dirname os inc_path
                             in expand fuel os includeonly inc_path inc_dir v))
              in then_sub (then_sub (then_sub (then_sub
                   (re_sub IMPORT_RX repl_import (strip_comments raw) (insert abs_path visited))
                   (re_sub SUBIMPORT_RX repl_import))
                   (re_sub INPUT_BRACED_RX repl_input))
                   (re_sub INPUT_SPACEFORM_RX repl_input))
                   (re_sub INCLUDE_RX repl_include))))"

definition load_and_expand :: "nat \<Rightarrow> os_env \<Rightarrow> string \<Rightarrow> string outcome" where
  "load_and_expand fuel os main_path =
     (let main_path = abspath os main_path;
          project_dir = dirname os main_path
      in case read_file os main_path of
           Content main_text \<Rightarrow>
             (case expand fuel os (collect_includeonly main_text) main_path project_dir {} of
                Done (text, visited) \<Rightarrow> Done text
              | Raised \<Rightarrow> Raised
              | OutOfFuel \<Rightarrow> OutOfFuel)
         | FileNotFound \<Rightarrow> Raised
         | ReadError \<Rightarrow> Raised)"


section \<open>Traversal order and the blocks of a document\<close>

text \<open>
  The environment nodes of a node list in pre-order, depth first: a node before its
  children, the children from left to right. Each is given by its name and verbatim text.
\<close>

fun preorder :: "latex_node \<Rightarrow> (string \<times> string) list"
  and preorder_all :: "latex_node list \<Rightarrow> (string \<times> string) list" where
  "preorder (LatexEnvironmentNode envname s kids) = (envname, s) # preorder_all kids"
| "preorder (OtherNode kids) = preorder_all kids"
| "preorder_all [] = []"
| "preorder_all (n # ns) = preorder n @ preorder_all ns"

text \<open>
  The recognized blocks (statement or proof) numbered from 0 in that order, and the two
  kinds picked out of the numbered list. An entry is (ordinal, name, verbatim text).
\<close>

definition is_recognized :: "canonical set \<Rightarrow> string \<times> string \<Rightarrow> bool" where
  "is_recognized selected b = (is_statement selected (fst b) \<or> is_proof selected (fst b))"

definition numbered :: "canonical set \<Rightarrow> (string \<times> string) list \<Rightarrow> (nat \<times> string \<times> string) list" where
  "numbered selected bs = enumerate 0 (filter (is_recognized selected) bs)"

definition statement_blocks :: "canonical set \<Rightarrow> (string \<times> string) list \<Rightarrow> (nat \<times> string \<times> string) list" where
  "statement_blocks selected bs = filter (\<lambda>b. is_statement selected (fst (snd b))) (numbered selected bs)"

definition proof_blocks :: "canonical set \<Rightarrow> (string \<times> string) list \<Rightarrow> (nat \<times> string \<times> string) list" where
  "proof_blocks selected bs = filter (\<lambda>b. is_proof selected (fst (snd b))) (numbered selected bs)"

text \<open>The state of the walk after the blocks \<open>bs\<close> have been visited in order.\<close>

definition visit_all :: "canonical set \<Rightarrow> (string \<times> string) list \<Rightarrow> walk_state" where
  "visit_all selected bs = fold (\<lambda>b. visit_env selected (fst b) (snd b)) bs init_state"

definition node_key :: "NodeInfo \<Rightarrow> nat \<times> string \<times> string" where
  "node_key n = (index n, env n, label n)"

definition block_key :: "nat \<times> string \<times> string \<Rightarrow> nat \<times> string \<times> string" where
  "block_key b = (fst b, fst (snd b), stmt_label (fst (snd b)) (snd (snd b)) (fst b))"

text \<open>The node \<open>n\<close> was recorded for the block \<open>b\<close>.\<close>

definition from_block :: "NodeInfo \<Rightarrow> nat \<times> string \<times> string \<Rightarrow> bool" where
  "from_block n b = (index n = fst b \<and> env n = fst (snd b))"

text \<open>
  The ordinal of the last statement node whose ordinal is below \<open>k\<close>: the statement most
  recently recorded before the block with ordinal \<open>k\<close> was reached.
\<close>

definition preceding_statement :: "NodeInfo list \<Rightarrow> nat \<Rightarrow> nat option" where
  "preceding_statement ns k =
     (let earlier = filter (\<lambda>n. index n < k) ns
      in if earlier = [] then None else Some (index (last earlier)))"

text \<open>An edge whose source comes from the label table and whose target from the ordinal table.\<close>

definition edge_sound :: "parsed \<Rightarrow> string \<times> string \<times> edge_style \<Rightarrow> bool" where
  "edge_sound r e =
     (fst e \<in> label ` ran (p_label_to_node r) \<and> fst (snd e) \<in> label ` ran (p_node_by_index r))"

text \<open>
  The label a statement block gets, and the labels of a list of statement blocks split by
  origin: those declared by a \<^verbatim>\<open>\label\<close> directive and those synthesized from
  name and ordinal.
\<close>

definition block_label :: "nat \<times> string \<times> string \<Rightarrow> string" where
  "block_label b = stmt_label (fst (snd b)) (snd (snd b)) (fst b)"

definition declared_labels :: "(nat \<times> string \<times> string) list \<Rightarrow> string list" where
  "declared_labels ss =
     concat (map (\<lambda>b. case explicit_label (snd (snd b)) of Some l \<Rightarrow> [l] | None \<Rightarrow> []) ss)"

definition synthesized_labels :: "(nat \<times> string \<times> string) list \<Rightarrow> string list" where
  "synthesized_labels ss =
     concat (map (\<lambda>b. case explicit_label (snd (snd b)) of
                         Some l \<Rightarrow> []
                       | None \<Rightarrow> [synthetic_label (fst (snd b)) (fst b)]) ss)"


section \<open>Notions for the properties of project expansion\<close>

text \<open>Text without a backslash and without a comment marker: no directive, no comment.\<close>

definition plain :: "string \<Rightarrow> bool" where
  "plain s = (backslash \<notin> set s \<and> CHR ''%'' \<notin> set s)"

text \<open>An included name that the braced form of \<^verbatim>\<open>\input\<close> captures whole.\<close>

definition plain_name :: "string \<Rightarrow> bool" where
  "plain_name s = (s \<noteq> [] \<and> plain s \<and> CHR ''}'' \<notin> set s)"

text \<open>The path \<^verbatim>\<open>repl_input_braced\<close> passes to \<^verbatim>\<open>expand\<close> for a captured name.\<close>

definition resolve_input :: "os_env \<Rightarrow> string \<Rightarrow> string \<Rightarrow> string" where
  "resolve_input os current_dir name = ensure_tex_ext os (norm_join os current_dir (strip name))"

text \<open>A pattern that begins with a literal backslash matches nowhere else.\<close>

definition led_by_backslash :: "'g matcher \<Rightarrow> bool" where
  "led_by_backslash m = (\<forall>b c cs. c \<noteq> backslash \<longrightarrow> m b (c # cs) = None)"

text \<open>A replacement function that only adds to the visited set.\<close>

definition grows :: "('g \<Rightarrow> string set \<Rightarrow> (string \<times> string set) outcome) \<Rightarrow> bool" where
  "grows repl = (\<forall>g V t V'. repl g V = Done (t, V') \<longrightarrow> V \<subseteq> V')"

text \<open>The files that can be read.\<close>

definition readable :: "os_env \<Rightarrow> string set" where
  "readable os = {p. \<exists>t. read_file os p = Content t}"

text \<open>
  An outcome of a call started with visited set \<open>V\<close> that is not the exhaustion of the
  recursion depth, and whose visited set, if it returned, contains \<open>V\<close>.
\<close>

definition settled :: "string set \<Rightarrow> (string \<times> string set) outcome \<Rightarrow> bool" where
  "settled V r = (case r of Done (t, W) \<Rightarrow> V \<subseteq> W | Raised \<Rightarrow> True | OutOfFuel \<Rightarrow> False)"

text \<open>The pattern \<open>m\<close> matches nowhere in the text.\<close>

definition free_of :: "'g matcher \<Rightarrow> string \<Rightarrow> bool" where
  "free_of m t = (re_scan m True t = map Chr t)"

text \<open>
  The text holds no import directive and exactly one braced \<^verbatim>\<open>\input\<close>, of \<open>name\<close>,
  with \<open>p\<close> before it and \<open>s\<close> after it.
\<close>

definition one_input :: "string \<Rightarrow> string \<Rightarrow> string \<Rightarrow> string \<Rightarrow> bool" where
  "one_input t p name s =
     (free_of IMPORT_RX t \<and> free_of SUBIMPORT_RX t \<and>
      re_scan INPUT_BRACED_RX True t = map Chr p @ Hit name # map Chr s)"

text \<open>The text holds nothing the two last substitutions of \<^verbatim>\<open>expand\<close> would replace.\<close>

definition no_later_directive :: "string \<Rightarrow> bool" where
  "no_later_directive t = (free_of INPUT_SPACEFORM_RX t \<and> free_of INCLUDE_RX t)"

text \<open>
  The text holds no import directive and exactly two braced \<^verbatim>\<open>\input\<close> directives,
  of \<open>name1\<close> and then of \<open>name2\<close>, with \<open>p\<close>, \<open>m\<close> and \<open>s\<close> around them.
\<close>

definition two_inputs :: "string \<Rightarrow> string \<Rightarrow> string \<Rightarrow> string \<Rightarrow> string \<Rightarrow> string \<Rightarrow> bool" where
  "two_inputs t p name1 m name2 s =
     (free_of IMPORT_RX t \<and> free_of SUBIMPORT_RX t \<and>
      re_scan INPUT_BRACED_RX True t = map Chr p @ Hit name1 # map Chr m @ Hit name2 # map Chr s)"



section \<open>Documents used as concrete inputs\<close>

text \<open>
  Each is the node list of the text quoted above it. A macro node has no \<^verbatim>\<open>nodelist\<close>
  and a group node has its contents as \<^verbatim>\<open>nodelist\<close>; neither is an environment.
\<close>

definition begin_env :: "string \<Rightarrow> string" where
  "begin_env name = backslash # ''begin{'' @ name @ ''}''"

definition end_env :: "string \<Rightarrow> string" where
  "end_env name = backslash # ''end{'' @ name @ ''}''"

definition macro :: "string \<Rightarrow> string \<Rightarrow> string" where
  "macro name arg = backslash # name @ ''{'' @ arg @ ''}''"

text \<open>
  \<^verbatim>\<open>\begin{definition}\label{D1}\end{definition}\<close>
  \<^verbatim>\<open>\begin{theorem}\label{T1}\end{theorem}\<close>
  \<^verbatim>\<open>\begin{proof}\proves{T1}\uses{D1}\end{proof}\<close>
\<close>

definition scenario1 :: "latex_node list" where
  "scenario1 =
     [LatexEnvironmentNode ''definition''
        (begin_env ''definition'' @ macro ''label'' ''D1'' @ end_env ''definition'')
        [OtherNode []],
      LatexEnvironmentNode ''theorem''
        (begin_env ''theorem'' @ macro ''label'' ''T1'' @ end_env ''theorem'')
        [OtherNode []],
      LatexEnvironmentNode ''proof''
        (begin_env ''proof'' @ macro ''proves'' ''T1'' @ macro ''uses'' ''D1'' @ end_env ''proof'')
        [OtherNode [], OtherNode [OtherNode []], OtherNode [], OtherNode [OtherNode []]]]"

text \<open>The environments of that document, in order, for any node list that has exactly them.\<close>

definition scenario1_blocks :: "(string \<times> string) list" where
  "scenario1_blocks =
     [(''definition'', begin_env ''definition'' @ macro ''label'' ''D1'' @ end_env ''definition''),
      (''theorem'', begin_env ''theorem'' @ macro ''label'' ''T1'' @ end_env ''theorem''),
      (''proof'', begin_env ''proof'' @ macro ''proves'' ''T1'' @ macro ''uses'' ''D1'' @ end_env ''proof'')]"

text \<open>
  \<^verbatim>\<open>\begin{theorem}\label{T1}\uses{Ghost}\end{theorem}\<close>
  \<^verbatim>\<open>\begin{proof}\proves{Nowhere}\uses{Ghost,T1}\end{proof}\<close>
\<close>

definition dangling_doc :: "latex_node list" where
  "dangling_doc =
     [LatexEnvironmentNode ''theorem''
        (begin_env ''theorem'' @ macro ''label'' ''T1'' @ macro ''uses'' ''Ghost'' @ end_env ''theorem'')
        [OtherNode [], OtherNode [], OtherNode [OtherNode []]],
      LatexEnvironmentNode ''proof''
        (begin_env ''proof'' @ macro ''proves'' ''Nowhere'' @ macro ''uses'' ''Ghost,T1'' @ end_env ''proof'')
        [OtherNode [], OtherNode [OtherNode []], OtherNode [], OtherNode [OtherNode []]]]"

text \<open>
  \<^verbatim>\<open>\begin{theorem}\label{A}\end{theorem}\<close>
  \<^verbatim>\<open>\begin{lemma}\label{A}\end{lemma}\<close>
\<close>

definition dup_label_doc :: "latex_node list" where
  "dup_label_doc =
     [LatexEnvironmentNode ''theorem''
        (begin_env ''theorem'' @ macro ''label'' ''A'' @ end_env ''theorem'')
        [OtherNode []],
      LatexEnvironmentNode ''lemma''
        (begin_env ''lemma'' @ macro ''label'' ''A'' @ end_env ''lemma'')
        [OtherNode []]]"

text \<open>
  \<^verbatim>\<open>\begin{lem}\label{lem:1}\end{lem}\<close>
  \<^verbatim>\<open>\begin{lem}\end{lem}\<close>
  \<^verbatim>\<open>\begin{proof}\proves{lem:1}\uses{lem:1}\end{proof}\<close>
\<close>

definition collision_doc :: "latex_node list" where
  "collision_doc =
     [LatexEnvironmentNode ''lem''
        (begin_env ''lem'' @ macro ''label'' ''lem:1'' @ end_env ''lem'')
        [OtherNode []],
      LatexEnvironmentNode ''lem''
        (begin_env ''lem'' @ end_env ''lem'')
        [],
      LatexEnvironmentNode ''proof''
        (begin_env ''proof'' @ macro ''proves'' ''lem:1'' @ macro ''uses'' ''lem:1'' @ end_env ''proof'')
        [OtherNode [], OtherNode [OtherNode []], OtherNode [], OtherNode [OtherNode []]]]"

text \<open>
  \<^verbatim>\<open>\begin{theorem}\end{theorem}\<close>
  \<^verbatim>\<open>\begin{lemma}\end{lemma}\<close>
  \<^verbatim>\<open>\begin{proof}\proves{theorem:0}\end{proof}\<close>
\<close>

definition synth_target_doc :: "latex_node list" where
  "synth_target_doc =
     [LatexEnvironmentNode ''theorem''
        (begin_env ''theorem'' @ end_env ''theorem'')
        [],
      LatexEnvironmentNode ''lemma''
        (begin_env ''lemma'' @ end_env ''lemma'')
        [],
      LatexEnvironmentNode ''proof''
        (begin_env ''proof'' @ macro ''proves'' ''theorem:0'' @ end_env ''proof'')
        [OtherNode [], OtherNode [OtherNode []]]]"

text \<open>
  \<^verbatim>\<open>\begin{theorem}\label{T1}\end{theorem}\<close>
  \<^verbatim>\<open>\begin{definition}\label{D1}\end{definition}\<close>
  \<^verbatim>\<open>\begin{proof}\proves{T1}\uses{D1}\end{proof}\<close>
\<close>

definition override_doc :: "latex_node list" where
  "override_doc =
     [LatexEnvironmentNode ''theorem''
        (begin_env ''theorem'' @ macro ''label'' ''T1'' @ end_env ''theorem'')
        [OtherNode []],
      LatexEnvironmentNode ''definition''
        (begin_env ''definition'' @ macro ''label'' ''D1'' @ end_env ''definition'')
        [OtherNode []],
      LatexEnvironmentNode ''proof''
        (begin_env ''proof'' @ macro ''proves'' ''T1'' @ macro ''uses'' ''D1'' @ end_env ''proof'')
        [OtherNode [], OtherNode [OtherNode []], OtherNode [], OtherNode [OtherNode []]]]"

text \<open>
  A stand-in for the operating system in concrete runs: the files are a table from path
  to text, every path in it is absolute and normal, and included names are plain relative
  names, so \<^verbatim>\<open>abspath\<close> and \<^verbatim>\<open>normpath\<close> change nothing and \<^verbatim>\<open>join\<close> puts a
  slash between directory and name.
\<close>

definition table_os :: "(string \<times> string) list \<Rightarrow> os_env" where
  "table_os files =
     \<lparr>read_file = (\<lambda>p. case map_of files p of Some t \<Rightarrow> Content t | None \<Rightarrow> FileNotFound),
      abspath = (\<lambda>p. p),
      normpath = (\<lambda>p. p),
      join = (\<lambda>a b. a @ ''/'' @ b),
      dirname = (\<lambda>p. rev (drop 1 (dropWhile (\<lambda>c. c \<noteq> CHR ''/'') (rev p)))),
      basename = (\<lambda>p. rev (takeWhile (\<lambda>c. c \<noteq> CHR ''/'') (rev p))),
      splitext = (\<lambda>p. if CHR ''.'' \<in> set (takeWhile (\<lambda>c. c \<noteq> CHR ''/'') (rev p))
                       then (rev (drop 1 (dropWhile (\<lambda>c. c \<noteq> CHR ''.'') (rev p))),
                             CHR ''.'' # rev (takeWhile (\<lambda>c. c \<noteq> CHR ''.'') (rev p)))
                       else (p, []))\<rparr>"

text \<open>
  \<^verbatim>\<open>/p/A.tex\<close>: \<^verbatim>\<open>\chapter{One} % start\<close>, a newline, \<^verbatim>\<open>\input{B} end of A\<close>;
  \<^verbatim>\<open>/p/B.tex\<close>: \<^verbatim>\<open>\begin{lemma}\label{L}\end{lemma}\input{A}\<close>.
\<close>

definition cyclic_notes :: os_env where
  "cyclic_notes =
     table_os
       [(''/p/A.tex'', macro ''chapter'' ''One'' @ '' % start'' @ [newline] @ macro ''input'' ''B'' @ '' end of A''),
        (''/p/B.tex'', begin_env ''lemma'' @ macro ''label'' ''L'' @ end_env ''lemma'' @ macro ''input'' ''A'')]"


section \<open>Properties of the walker and of graph assembly\<close>

lemma walk_fold:
  "walk sel n st = fold (\<lambda>b. visit_env sel (fst b) (snd b)) (preorder n) st"
  "walk_all sel ns st = fold (\<lambda>b. visit_env sel (fst b) (snd b)) (preorder_all ns) st"
  by (induction sel n st and sel ns st rule: walk_walk_all.induct) simp_all

lemma walk_all_visit_all: "walk_all sel ns init_state = visit_all sel (preorder_all ns)"
  by (simp add: walk_fold visit_all_def)

lemma visit_all_Nil: "visit_all sel [] = init_state"
  by (simp add: visit_all_def)

lemma visit_all_snoc: "visit_all sel (bs @ [b]) = visit_env sel (fst b) (snd b) (visit_all sel bs)"
  by (simp add: visit_all_def)

lemma visit_statement:
  "is_statement sel e \<Longrightarrow> \<exists>c. visit_env sel e s st = record_statement c e s st"
  by (auto simp: is_statement_def visit_env_def split: option.splits)

lemma visit_proof:
  "is_proof sel e \<Longrightarrow> visit_env sel e s st = record_proof s st"
  by (auto simp: is_proof_def is_statement_def visit_env_def split: option.splits)

lemma visit_other:
  "\<not> is_statement sel e \<Longrightarrow> \<not> is_proof sel e \<Longrightarrow> visit_env sel e s st = st"
  by (auto simp: is_proof_def is_statement_def visit_env_def split: option.splits)

lemma not_both: "is_proof sel e \<Longrightarrow> \<not> is_statement sel e"
  by (simp add: is_proof_def)

lemma not_both': "is_statement sel e \<Longrightarrow> \<not> is_proof sel e"
  by (simp add: is_proof_def)

lemma numbered_snoc:
  "numbered sel (bs @ [b]) =
     numbered sel bs @ (if is_recognized sel b then [(length (numbered sel bs), b)] else [])"
  by (simp add: numbered_def enumerate_append_eq)

lemma visit_all_induct [case_names Init Stmt Proof Other]:
  assumes "P [] init_state"
    and "\<And>bs e s c. P bs (visit_all sel bs) \<Longrightarrow> is_statement sel e \<Longrightarrow>
           P (bs @ [(e, s)]) (record_statement c e s (visit_all sel bs))"
    and "\<And>bs e s. P bs (visit_all sel bs) \<Longrightarrow> is_proof sel e \<Longrightarrow>
           P (bs @ [(e, s)]) (record_proof s (visit_all sel bs))"
    and "\<And>bs e s. P bs (visit_all sel bs) \<Longrightarrow> \<not> is_statement sel e \<Longrightarrow> \<not> is_proof sel e \<Longrightarrow>
           P (bs @ [(e, s)]) (visit_all sel bs)"
  shows "P bs (visit_all sel bs)"
proof (induction bs rule: rev_induct)
  case Nil
  show ?case using assms(1) by (simp add: visit_all_Nil)
next
  case (snoc b bs)
  obtain e s where b: "b = (e, s)" by (cases b)
  consider (S) "is_statement sel e" | (P) "is_proof sel e"
    | (N) "\<not> is_statement sel e" "\<not> is_proof sel e"
    by blast
  then show ?case
  proof cases
    case S
    then obtain c where "visit_env sel e s (visit_all sel bs) = record_statement c e s (visit_all sel bs)"
      using visit_statement by blast
    with assms(2) [OF snoc S] show ?thesis by (simp add: visit_all_snoc b)
  next
    case P
    with assms(3) [OF snoc P] show ?thesis by (simp add: visit_all_snoc b visit_proof)
  next
    case N
    with assms(4) [OF snoc N] show ?thesis by (simp add: visit_all_snoc b visit_other)
  qed
qed

lemma record_statement_fields:
  "order_counter (record_statement c e s st) = Suc (order_counter st)"
  "last_stmt_idx (record_statement c e s st) = Some (order_counter st)"
  "nodes (record_statement c e s st) =
     nodes st @ [\<lparr>canon = c, env = e, label = stmt_label e s (order_counter st), index = order_counter st\<rparr>]"
  "node_by_index (record_statement c e s st) =
     (node_by_index st)(order_counter st \<mapsto>
        \<lparr>canon = c, env = e, label = stmt_label e s (order_counter st), index = order_counter st\<rparr>)"
  "label_to_node (record_statement c e s st) =
     (case explicit_label s of
        Some l \<Rightarrow> (label_to_node st)(l \<mapsto>
          \<lparr>canon = c, env = e, label = stmt_label e s (order_counter st), index = order_counter st\<rparr>)
      | None \<Rightarrow> label_to_node st)"
  "proofs (record_statement c e s st) = proofs st"
  by (simp_all add: record_statement_def Let_def)

lemma record_proof_fields:
  "order_counter (record_proof s st) = Suc (order_counter st)"
  "last_stmt_idx (record_proof s st) = last_stmt_idx st"
  "nodes (record_proof s st) = nodes st"
  "node_by_index (record_proof s st) = node_by_index st"
  "label_to_node (record_proof s st) = label_to_node st"
  "uses_on_node (record_proof s st) = uses_on_node st"
  "proofs (record_proof s st) =
     proofs st @ [\<lparr>pindex = order_counter st,
                    target_label = map_option strip (re_search PROVES_RX s),
                    uses = concat (map comma_list (re_finditer USES_RX s)),
                    target_node_idx = last_stmt_idx st\<rparr>]"
  by (simp_all add: record_proof_def Let_def)

lemma statement_blocks_snoc:
  "statement_blocks sel (bs @ [b]) =
     statement_blocks sel bs @ (if is_statement sel (fst b) then [(length (numbered sel bs), b)] else [])"
  by (simp add: statement_blocks_def numbered_snoc is_recognized_def)

lemma proof_blocks_snoc:
  "proof_blocks sel (bs @ [b]) =
     proof_blocks sel bs @ (if is_proof sel (fst b) then [(length (numbered sel bs), b)] else [])"
  by (auto simp: proof_blocks_def numbered_snoc is_recognized_def)

lemma blocks_Nil: "numbered sel [] = []" "statement_blocks sel [] = []" "proof_blocks sel [] = []"
  by (simp_all add: numbered_def statement_blocks_def proof_blocks_def)

lemma numbered_fst: "map fst (numbered sel bs) = [0..<length (numbered sel bs)]"
  by (simp add: numbered_def)

lemma numbered_bound: "b \<in> set (numbered sel bs) \<Longrightarrow> fst b < length (numbered sel bs)"
proof -
  assume "b \<in> set (numbered sel bs)"
  then have "fst b \<in> set (map fst (numbered sel bs))" by simp
  then show ?thesis by (simp add: numbered_fst)
qed

lemma statement_blocks_bound: "b \<in> set (statement_blocks sel bs) \<Longrightarrow> fst b < length (numbered sel bs)"
  by (simp add: statement_blocks_def numbered_bound)

lemma proof_blocks_bound: "b \<in> set (proof_blocks sel bs) \<Longrightarrow> fst b < length (numbered sel bs)"
  by (simp add: proof_blocks_def numbered_bound)

lemma counter_visit_all: "order_counter (visit_all sel bs) = length (numbered sel bs)"
  by (induction rule: visit_all_induct [where sel = sel])
     (simp_all add: init_state_def blocks_Nil numbered_snoc is_recognized_def
        record_statement_fields record_proof_fields)

lemma nodes_visit_all:
  "map node_key (nodes (visit_all sel bs)) = map block_key (statement_blocks sel bs)"
  by (induction rule: visit_all_induct [where sel = sel])
     (simp_all add: init_state_def blocks_Nil statement_blocks_snoc not_both
        record_statement_fields record_proof_fields counter_visit_all node_key_def block_key_def)

lemma proofs_visit_all:
  "map pindex (proofs (visit_all sel bs)) = map fst (proof_blocks sel bs)"
  by (induction rule: visit_all_induct [where sel = sel])
     (simp_all add: init_state_def blocks_Nil proof_blocks_snoc not_both not_both'
        record_statement_fields record_proof_fields counter_visit_all)

lemma node_index_bound:
  "n \<in> set (nodes (visit_all sel bs)) \<Longrightarrow> index n < length (numbered sel bs)"
proof -
  assume "n \<in> set (nodes (visit_all sel bs))"
  then have "node_key n \<in> set (map node_key (nodes (visit_all sel bs)))" by simp
  then obtain b where "b \<in> set (statement_blocks sel bs)" "node_key n = block_key b"
    unfolding nodes_visit_all by auto
  then show ?thesis
    using statement_blocks_bound [of b sel bs] by (simp add: node_key_def block_key_def)
qed

lemma proof_index_bound:
  "p \<in> set (proofs (visit_all sel bs)) \<Longrightarrow> pindex p < length (numbered sel bs)"
proof -
  assume "p \<in> set (proofs (visit_all sel bs))"
  then have "pindex p \<in> set (map pindex (proofs (visit_all sel bs)))" by simp
  then obtain b where "b \<in> set (proof_blocks sel bs)" "pindex p = fst b"
    unfolding proofs_visit_all by auto
  then show ?thesis
    using proof_blocks_bound [of b sel bs] by simp
qed

lemma node_by_index_visit_all:
  "(node_by_index (visit_all sel bs) i = Some n) = (n \<in> set (nodes (visit_all sel bs)) \<and> index n = i)"
proof (induction arbitrary: i n rule: visit_all_induct [where sel = sel])
  case Init
  show ?case by (simp add: init_state_def)
next
  case (Stmt bs e s c)
  have "\<And>m. m \<in> set (nodes (visit_all sel bs)) \<Longrightarrow> index m \<noteq> order_counter (visit_all sel bs)"
    using node_index_bound [of _ sel bs] by (fastforce simp: counter_visit_all)
  with Stmt.IH show ?case
    by (auto simp: record_statement_fields)
next
  case (Proof bs e s)
  then show ?case by (simp add: record_proof_fields)
next
  case (Other bs e s)
  then show ?case by simp
qed

lemma explicit_label_nonempty: "explicit_label s = Some l \<Longrightarrow> l \<noteq> []"
  by (auto simp: explicit_label_def split: option.splits if_splits)

lemma stmt_label_explicit: "explicit_label s = Some l \<Longrightarrow> stmt_label e s i = l"
  by (simp add: stmt_label_def)

lemma stmt_label_synthetic: "explicit_label s = None \<Longrightarrow> stmt_label e s i = synthetic_label e i"
  by (simp add: stmt_label_def)

lemma label_to_node_sound:
  "label_to_node (visit_all sel bs) l = Some n \<Longrightarrow>
     n \<in> set (nodes (visit_all sel bs)) \<and> label n = l \<and>
     (\<exists>b \<in> set (statement_blocks sel bs). from_block n b \<and> explicit_label (snd (snd b)) = Some l) \<and>
     (\<forall>b \<in> set (statement_blocks sel bs). explicit_label (snd (snd b)) = Some l \<longrightarrow> fst b \<le> index n)"
proof (induction arbitrary: l n rule: visit_all_induct [where sel = sel])
  case Init
  then show ?case by (simp add: init_state_def)
next
  case (Stmt bs e s c)
  let ?st = "visit_all sel bs"
  let ?ni = "\<lparr>canon = c, env = e, label = stmt_label e s (order_counter ?st), index = order_counter ?st\<rparr>"
  have bound: "\<And>b. b \<in> set (statement_blocks sel bs) \<Longrightarrow> fst b < order_counter ?st"
    by (simp add: counter_visit_all statement_blocks_bound)
  show ?case
  proof (cases "explicit_label s = Some l")
    case True
    with Stmt.prems have n: "n = ?ni"
      by (simp add: record_statement_fields)
    show ?thesis
      using True Stmt.hyps bound
      by (auto simp: n record_statement_fields statement_blocks_snoc counter_visit_all
            stmt_label_explicit from_block_def dest: less_imp_le)
  next
    case False
    with Stmt.prems have old: "label_to_node ?st l = Some n"
      by (auto simp: record_statement_fields split: option.splits if_splits)
    from Stmt.IH [OF old] False Stmt.hyps show ?thesis
      by (auto simp: record_statement_fields statement_blocks_snoc)
  qed
next
  case (Proof bs e s)
  from Proof.prems have old: "label_to_node (visit_all sel bs) l = Some n"
    by (simp add: record_proof_fields)
  from Proof.IH [OF old] Proof.hyps show ?case
    by (simp add: record_proof_fields statement_blocks_snoc not_both)
next
  case (Other bs e s)
  from Other.IH [OF Other.prems] Other.hyps show ?case
    by (simp add: statement_blocks_snoc)
qed

lemma label_to_node_complete:
  "b \<in> set (statement_blocks sel bs) \<Longrightarrow> explicit_label (snd (snd b)) = Some l \<Longrightarrow>
     label_to_node (visit_all sel bs) l \<noteq> None"
proof (induction arbitrary: b l rule: visit_all_induct [where sel = sel])
  case Init
  then show ?case by (simp add: blocks_Nil)
next
  case (Stmt bs e s c)
  show ?case
  proof (cases "b \<in> set (statement_blocks sel bs)")
    case True
    from Stmt.IH [OF True Stmt.prems(2)] show ?thesis
      by (simp add: record_statement_fields split: option.splits)
  next
    case False
    with Stmt.prems Stmt.hyps have "explicit_label s = Some l"
      by (auto simp: statement_blocks_snoc)
    then show ?thesis
      by (simp add: record_statement_fields)
  qed
next
  case (Proof bs e s)
  then show ?case
    by (simp add: record_proof_fields statement_blocks_snoc not_both)
next
  case (Other bs e s)
  then show ?case
    by (simp add: statement_blocks_snoc)
qed

lemma last_stmt_idx_visit_all:
  "last_stmt_idx (visit_all sel bs) =
     (if nodes (visit_all sel bs) = [] then None else Some (index (last (nodes (visit_all sel bs)))))"
  by (induction rule: visit_all_induct [where sel = sel])
     (simp_all add: init_state_def record_statement_fields record_proof_fields)

lemma fallback_visit_all:
  "p \<in> set (proofs (visit_all sel bs)) \<Longrightarrow>
     target_node_idx p = preceding_statement (nodes (visit_all sel bs)) (pindex p)"
proof (induction arbitrary: p rule: visit_all_induct [where sel = sel])
  case Init
  then show ?case by (simp add: init_state_def)
next
  case (Stmt bs e s c)
  from Stmt.prems have p: "p \<in> set (proofs (visit_all sel bs))"
    by (simp add: record_statement_fields)
  then have "\<not> order_counter (visit_all sel bs) < pindex p"
    using proof_index_bound [of p sel bs] by (simp add: counter_visit_all)
  with Stmt.IH [OF p] show ?case
    by (simp add: record_statement_fields preceding_statement_def)
next
  case (Proof bs e s)
  let ?st = "visit_all sel bs"
  have all: "filter (\<lambda>n. index n < order_counter ?st) (nodes ?st) = nodes ?st"
    using node_index_bound [of _ sel bs] by (simp add: counter_visit_all)
  from Proof.prems Proof.IH show ?case
    by (auto simp: record_proof_fields preceding_statement_def all last_stmt_idx_visit_all)
next
  case (Other bs e s)
  then show ?case by simp
qed

lemma digit_char_digit: "d < 10 \<Longrightarrow> digit_char d \<in> set ''0123456789''"
  unfolding digit_char_def by (rule nth_mem) simp

lemma digit_char_inj: "d < 10 \<Longrightarrow> d' < 10 \<Longrightarrow> digit_char d = digit_char d' \<Longrightarrow> d = d'"
proof -
  have "distinct ''0123456789''" by simp
  moreover assume "d < 10" "d' < 10" "digit_char d = digit_char d'"
  ultimately show ?thesis
    unfolding digit_char_def by (simp add: nth_eq_iff_index_eq)
qed

lemma str_nat_nonempty: "str_nat n \<noteq> []"
  by (subst str_nat.simps) simp

lemma str_nat_digits: "set (str_nat n) \<subseteq> set ''0123456789''"
proof (induction n rule: str_nat.induct)
  case (1 n)
  show ?case
  proof (cases "n < 10")
    case True
    then show ?thesis
      using digit_char_digit [of n] by (subst str_nat.simps) simp
  next
    case False
    then have "set (str_nat (n div 10)) \<subseteq> set ''0123456789''" by (rule "1.IH")
    moreover have "digit_char (n mod 10) \<in> set ''0123456789''"
      by (rule digit_char_digit) simp
    ultimately show ?thesis
      using False by (subst str_nat.simps) simp
  qed
qed

lemma str_nat_no_colon: "CHR '':'' \<notin> set (str_nat n)"
  using str_nat_digits [of n] by auto

lemma str_nat_inj: "str_nat m = str_nat n \<Longrightarrow> m = n"
proof (induction m arbitrary: n rule: str_nat.induct)
  case (1 m)
  show ?case
  proof (cases "m < 10")
    case m: True
    show ?thesis
    proof (cases "n < 10")
      case True
      with m "1.prems" show ?thesis
        by (simp add: str_nat.simps [of m] str_nat.simps [of n] digit_char_inj)
    next
      case False
      with m "1.prems" str_nat_nonempty [of "n div 10"] show ?thesis
        by (simp add: str_nat.simps [of m] str_nat.simps [of n])
    qed
  next
    case m: False
    show ?thesis
    proof (cases "n < 10")
      case True
      with m "1.prems" str_nat_nonempty [of "m div 10"] show ?thesis
        by (simp add: str_nat.simps [of m] str_nat.simps [of n])
    next
      case False
      with m "1.prems" have eq: "str_nat (m div 10) = str_nat (n div 10)"
        and d: "digit_char (m mod 10) = digit_char (n mod 10)"
        by (simp_all add: str_nat.simps [of m] str_nat.simps [of n])
      from "1.IH" [OF m eq] have "m div 10 = n div 10" .
      moreover from d have "m mod 10 = n mod 10"
        by (rule digit_char_inj [rotated 2]) simp_all
      ultimately show ?thesis
        by (metis div_mult_mod_eq)
    qed
  qed
qed

lemma split_last_sep:
  assumes "c \<notin> set d" "c \<notin> set d'" "a @ c # d = a' @ c # d'"
  shows "a = a' \<and> d = d'"
proof -
  have "rev d @ c # rev a = rev d' @ c # rev a'"
    using arg_cong [OF assms(3), of rev] by simp
  then have "takeWhile (\<lambda>x. x \<noteq> c) (rev d @ c # rev a) = takeWhile (\<lambda>x. x \<noteq> c) (rev d' @ c # rev a')"
    by simp
  moreover have "takeWhile (\<lambda>x. x \<noteq> c) (rev d @ c # rev a) = rev d"
    using assms(1) by (auto simp: takeWhile_tail)
  moreover have "takeWhile (\<lambda>x. x \<noteq> c) (rev d' @ c # rev a') = rev d'"
    using assms(2) by (auto simp: takeWhile_tail)
  ultimately have "d = d'" by simp
  with assms(3) show ?thesis by simp
qed

lemma synthetic_label_inj:
  "synthetic_label e i = synthetic_label e' j \<Longrightarrow> e = e' \<and> i = j"
proof -
  assume "synthetic_label e i = synthetic_label e' j"
  then have "e @ CHR '':'' # str_nat i = e' @ CHR '':'' # str_nat j"
    by (simp add: synthetic_label_def)
  then have "e = e' \<and> str_nat i = str_nat j"
    by (rule split_last_sep [OF str_nat_no_colon str_nat_no_colon])
  then show ?thesis by (simp add: str_nat_inj)
qed

lemma parse_fields:
  "p_nodes (parse_latex_structure ns sel) = nodes (visit_all sel (preorder_all ns))"
  "p_node_by_index (parse_latex_structure ns sel) = node_by_index (visit_all sel (preorder_all ns))"
  "p_label_to_node (parse_latex_structure ns sel) = label_to_node (visit_all sel (preorder_all ns))"
  "p_uses_on_node (parse_latex_structure ns sel) = uses_on_node (visit_all sel (preorder_all ns))"
  "p_proofs (parse_latex_structure ns sel) =
     map (resolve_proof (label_to_node (visit_all sel (preorder_all ns))))
         (proofs (visit_all sel (preorder_all ns)))"
  by (simp_all add: parse_latex_structure_def Let_def walk_all_visit_all)

lemma resolve_proof_fields:
  "pindex (resolve_proof l2n p) = pindex p"
  "target_label (resolve_proof l2n p) = target_label p"
  "uses (resolve_proof l2n p) = uses p"
  by (simp_all add: resolve_proof_def split: option.splits)

lemma add_edges_calls:
  "edge_calls (add_edges l2n ls t sty G) =
     edge_calls G @ concat (map (\<lambda>l. case l2n l of None \<Rightarrow> [] | Some src \<Rightarrow> [(label src, t, sty)]) ls)"
  "node_calls (add_edges l2n ls t sty G) = node_calls G"
  unfolding add_edges_def
  by (induction ls arbitrary: G) (simp_all split: option.splits)

lemma add_edges_mem:
  "e \<in> set (edge_calls (add_edges l2n ls t sty G)) \<longleftrightarrow>
     e \<in> set (edge_calls G) \<or> (\<exists>l \<in> set ls. \<exists>src. l2n l = Some src \<and> e = (label src, t, sty))"
  unfolding add_edges_def
  by (induction ls arbitrary: G) (auto split: option.splits)

lemma add_edges_sound:
  assumes "\<forall>e \<in> set (edge_calls G). edge_sound r e" "tn \<in> ran (p_node_by_index r)"
  shows "\<forall>e \<in> set (edge_calls (add_edges (p_label_to_node r) ls (label tn) sty G)). edge_sound r e"
proof
  fix e assume "e \<in> set (edge_calls (add_edges (p_label_to_node r) ls (label tn) sty G))"
  then consider "e \<in> set (edge_calls G)"
    | l src where "p_label_to_node r l = Some src" "e = (label src, label tn, sty)"
    unfolding add_edges_mem by blast
  then show "edge_sound r e"
  proof cases
    case 1
    with assms(1) show ?thesis by simp
  next
    case 2
    from 2(1) have "src \<in> ran (p_label_to_node r)" by (rule ranI)
    with 2(2) assms(2) show ?thesis by (simp add: edge_sound_def)
  qed
qed

lemma uses_step_sound:
  assumes "\<forall>e \<in> set (edge_calls G). edge_sound r e"
  shows "\<forall>e \<in> set (edge_calls (uses_step r x G)). edge_sound r e"
proof (cases "p_node_by_index r (fst x)")
  case None
  with assms show ?thesis by (simp add: uses_step_def)
next
  case (Some tn)
  then have "tn \<in> ran (p_node_by_index r)" by (rule ranI)
  from add_edges_sound [OF assms this] Some show ?thesis by (simp add: uses_step_def)
qed

lemma proof_step_sound:
  assumes "\<forall>e \<in> set (edge_calls G). edge_sound r e"
  shows "\<forall>e \<in> set (edge_calls (proof_step r p G)). edge_sound r e"
proof (cases "target_node_idx p")
  case None
  with assms show ?thesis by (simp add: proof_step_def)
next
  case (Some i)
  show ?thesis
  proof (cases "p_node_by_index r i")
    case None
    with Some assms show ?thesis by (simp add: proof_step_def)
  next
    case (Some tn)
    then have "tn \<in> ran (p_node_by_index r)" by (rule ranI)
    from add_edges_sound [OF assms this] Some \<open>target_node_idx p = Some i\<close>
    show ?thesis by (simp add: proof_step_def)
  qed
qed

lemma fold_preserves:
  "(\<And>x G. Q G \<Longrightarrow> Q (f x G)) \<Longrightarrow> Q G \<Longrightarrow> Q (fold f xs G)"
  by (induction xs arbitrary: G) simp_all

lemma build_graph_sound: "\<forall>e \<in> set (edge_calls (build_graph r)). edge_sound r e"
proof -
  let ?Q = "\<lambda>G. \<forall>e \<in> set (edge_calls G). edge_sound r e"
  have "?Q \<lparr>node_calls = map label (p_nodes r), edge_calls = []\<rparr>" by simp
  then have "?Q (fold (uses_step r) (p_uses_on_node r) \<lparr>node_calls = map label (p_nodes r), edge_calls = []\<rparr>)"
    by (rule fold_preserves [where Q = ?Q, rotated]) (rule uses_step_sound)
  then have "?Q (fold (proof_step r) (p_proofs r)
      (fold (uses_step r) (p_uses_on_node r) \<lparr>node_calls = map label (p_nodes r), edge_calls = []\<rparr>))"
    by (rule fold_preserves [where Q = ?Q, rotated]) (rule proof_step_sound)
  then show ?thesis by (simp add: build_graph_def Let_def)
qed

lemma build_graph_nodes: "node_calls (build_graph r) = map label (p_nodes r)"
proof -
  have u: "\<And>x G. node_calls (uses_step r x G) = node_calls G"
    by (simp add: uses_step_def add_edges_calls split: option.splits)
  have p: "\<And>x G. node_calls (proof_step r x G) = node_calls G"
    by (simp add: proof_step_def add_edges_calls split: option.splits)
  have "\<And>G xs. node_calls (fold (uses_step r) xs G) = node_calls G"
    subgoal for G xs by (induction xs arbitrary: G) (simp_all add: u) done
  moreover have "\<And>G xs. node_calls (fold (proof_step r) xs G) = node_calls G"
    subgoal for G xs by (induction xs arbitrary: G) (simp_all add: p) done
  ultimately show ?thesis by (simp add: build_graph_def Let_def)
qed

lemma ran_label_to_node:
  "n \<in> ran (p_label_to_node (parse_latex_structure ns sel)) \<Longrightarrow> n \<in> set (p_nodes (parse_latex_structure ns sel))"
  by (auto simp: parse_fields ran_def dest: label_to_node_sound)

lemma ran_node_by_index:
  "n \<in> ran (p_node_by_index (parse_latex_structure ns sel)) \<Longrightarrow> n \<in> set (p_nodes (parse_latex_structure ns sel))"
  by (auto simp: parse_fields ran_def node_by_index_visit_all)

lemma enumerate_snd: "x \<in> set (enumerate n xs) \<Longrightarrow> snd x \<in> set xs"
  by (cases x) (auto simp: enumerate_eq_zip dest: set_zip_rightD)

lemma numbered_recognized:
  "b \<in> set (numbered sel bs) \<Longrightarrow> is_statement sel (fst (snd b)) \<or> is_proof sel (fst (snd b))"
proof -
  assume "b \<in> set (numbered sel bs)"
  then have "snd b \<in> set (filter (is_recognized sel) bs)"
    unfolding numbered_def by (rule enumerate_snd)
  then show ?thesis by (simp add: is_recognized_def)
qed

lemma sorted_numbered: "sorted_wrt (\<lambda>a b. fst a < fst b) (numbered sel bs)"
proof -
  have "sorted_wrt (<) (map fst (numbered sel bs))"
    unfolding numbered_fst by simp
  then show ?thesis by (simp add: sorted_wrt_map)
qed

lemma sorted_statement_blocks: "sorted_wrt (<) (map fst (statement_blocks sel bs))"
  unfolding statement_blocks_def sorted_wrt_map
  by (rule sorted_wrt_filter) (rule sorted_numbered)

lemma sorted_proof_blocks: "sorted_wrt (<) (map fst (proof_blocks sel bs))"
  unfolding proof_blocks_def sorted_wrt_map
  by (rule sorted_wrt_filter) (rule sorted_numbered)

lemma distinct_split:
  "distinct (map f xs) \<Longrightarrow> (\<And>x. P x \<Longrightarrow> \<not> Q x) \<Longrightarrow>
     distinct (map f (filter P xs) @ map f (filter Q xs))"
  by (induction xs) (auto simp: image_iff)

lemma distinct_blocks:
  "distinct (map fst (statement_blocks sel bs) @ map fst (proof_blocks sel bs))"
  unfolding statement_blocks_def proof_blocks_def
  by (rule distinct_split) (simp_all add: numbered_fst not_both')

lemma blocks_cover:
  "set (map fst (statement_blocks sel bs)) \<union> set (map fst (proof_blocks sel bs)) =
     {0..<length (numbered sel bs)}"
proof -
  have "set (statement_blocks sel bs) \<union> set (proof_blocks sel bs) = set (numbered sel bs)"
    using numbered_recognized [of _ sel bs] by (auto simp: statement_blocks_def proof_blocks_def)
  then have "fst ` set (statement_blocks sel bs) \<union> fst ` set (proof_blocks sel bs) = fst ` set (numbered sel bs)"
    by (simp add: image_Un [symmetric])
  also have "fst ` set (numbered sel bs) = set (map fst (numbered sel bs))" by simp
  also have "\<dots> = {0..<length (numbered sel bs)}" unfolding numbered_fst by simp
  finally show ?thesis by simp
qed

lemma parse_node_indices:
  "map index (p_nodes (parse_latex_structure ns sel)) = map fst (statement_blocks sel (preorder_all ns))"
proof -
  have "map index (nodes (visit_all sel (preorder_all ns))) =
        map fst (map node_key (nodes (visit_all sel (preorder_all ns))))"
    by (simp add: node_key_def comp_def)
  also have "\<dots> = map fst (statement_blocks sel (preorder_all ns))"
    unfolding nodes_visit_all by (simp add: block_key_def comp_def)
  finally show ?thesis by (simp add: parse_fields)
qed

lemma parse_proof_indices:
  "map pindex (p_proofs (parse_latex_structure ns sel)) = map fst (proof_blocks sel (preorder_all ns))"
  by (simp add: parse_fields comp_def resolve_proof_fields proofs_visit_all)

lemma no_statement_empty: "\<not> is_statement {} e"
  by (simp add: is_statement_def split: option.splits)

lemma statement_blocks_empty: "statement_blocks {} bs = []"
  by (simp add: statement_blocks_def no_statement_empty)

lemma proof_blocks_empty:
  "proof_blocks {} bs = enumerate 0 (filter (\<lambda>b. fullmatch_alts PROOF_ALIAS (fst b)) bs)"
proof -
  have rec: "is_recognized {} = (\<lambda>b. fullmatch_alts PROOF_ALIAS (fst b))"
    by (rule ext) (simp add: is_recognized_def is_proof_def no_statement_empty)
  have "is_proof {} (fst (snd b))" if "b \<in> set (numbered {} bs)" for b
    using numbered_recognized [OF that] by (simp add: no_statement_empty)
  then have "filter (\<lambda>b. is_proof {} (fst (snd b))) (numbered {} bs) = numbered {} bs"
    by (simp add: filter_id_conv)
  then show ?thesis
    by (simp add: proof_blocks_def numbered_def rec)
qed

lemma fold_id: "(\<And>x G. f x G = G) \<Longrightarrow> fold f xs G = G"
  by (induction xs) simp_all

lemma parse_node_labels:
  "map label (p_nodes (parse_latex_structure ns sel)) =
     map block_label (statement_blocks sel (preorder_all ns))"
proof -
  have "map label (nodes (visit_all sel (preorder_all ns))) =
        map (\<lambda>k. snd (snd k)) (map node_key (nodes (visit_all sel (preorder_all ns))))"
    by (simp add: node_key_def comp_def)
  also have "\<dots> = map block_label (statement_blocks sel (preorder_all ns))"
    unfolding nodes_visit_all by (simp add: block_key_def block_label_def comp_def)
  finally show ?thesis by (simp add: parse_fields)
qed

lemma block_label_set:
  "set (map block_label ss) = set (declared_labels ss) \<union> set (synthesized_labels ss)"
  by (induction ss)
     (auto simp: block_label_def declared_labels_def synthesized_labels_def stmt_label_def
           split: option.splits)

lemma block_label_distinct:
  "distinct (map block_label ss) \<longleftrightarrow>
     distinct (declared_labels ss) \<and> distinct (synthesized_labels ss) \<and>
     set (declared_labels ss) \<inter> set (synthesized_labels ss) = {}"
proof (induction ss)
  case Nil
  show ?case by (simp add: declared_labels_def synthesized_labels_def)
next
  case (Cons b ss)
  have tl: "set (map block_label ss) = set (declared_labels ss) \<union> set (synthesized_labels ss)"
    by (rule block_label_set)
  show ?case
  proof (cases "explicit_label (snd (snd b))")
    case None
    then have "block_label b = synthetic_label (fst (snd b)) (fst b)"
      "declared_labels (b # ss) = declared_labels ss"
      "synthesized_labels (b # ss) = synthetic_label (fst (snd b)) (fst b) # synthesized_labels ss"
      by (simp_all add: block_label_def stmt_label_def declared_labels_def synthesized_labels_def)
    with Cons.IH tl show ?thesis by auto
  next
    case (Some l)
    then have "block_label b = l"
      "declared_labels (b # ss) = l # declared_labels ss"
      "synthesized_labels (b # ss) = synthesized_labels ss"
      by (simp_all add: block_label_def stmt_label_def declared_labels_def synthesized_labels_def)
    with Cons.IH tl show ?thesis by auto
  qed
qed

lemma synthesized_from:
  "l \<in> set (synthesized_labels ss) \<Longrightarrow> \<exists>b \<in> set ss. l = synthetic_label (fst (snd b)) (fst b)"
  by (auto simp: synthesized_labels_def split: option.splits)

lemma synthesized_distinct:
  "distinct (map fst ss) \<Longrightarrow> distinct (synthesized_labels ss)"
proof (induction ss)
  case Nil
  show ?case by (simp add: synthesized_labels_def)
next
  case (Cons b ss)
  then have IH: "distinct (synthesized_labels ss)" by simp
  show ?case
  proof (cases "explicit_label (snd (snd b))")
    case (Some l)
    then have "synthesized_labels (b # ss) = synthesized_labels ss"
      by (simp add: synthesized_labels_def)
    with IH show ?thesis by simp
  next
    case None
    then have eq: "synthesized_labels (b # ss) =
        synthetic_label (fst (snd b)) (fst b) # synthesized_labels ss"
      by (simp add: synthesized_labels_def)
    have "synthetic_label (fst (snd b)) (fst b) \<notin> set (synthesized_labels ss)"
    proof
      assume "synthetic_label (fst (snd b)) (fst b) \<in> set (synthesized_labels ss)"
      then obtain b' where "b' \<in> set ss"
        "synthetic_label (fst (snd b)) (fst b) = synthetic_label (fst (snd b')) (fst b')"
        using synthesized_from by blast
      then have "fst b = fst b'" "b' \<in> set ss" using synthetic_label_inj by blast+
      with Cons.prems show False by (auto simp: image_iff)
    qed
    with IH eq show ?thesis by simp
  qed
qed

lemma distinct_statement_blocks: "distinct (map fst (statement_blocks sel bs))"
  using distinct_blocks [of sel bs] by simp

lemma declared_mem:
  "l \<in> set (declared_labels ss) \<longleftrightarrow> (\<exists>b \<in> set ss. explicit_label (snd (snd b)) = Some l)"
  by (induction ss) (auto simp: declared_labels_def split: option.splits)

lemma label_to_node_dom:
  "dom (p_label_to_node (parse_latex_structure ns sel)) =
     set (declared_labels (statement_blocks sel (preorder_all ns)))"
proof (rule set_eqI)
  fix l
  let ?ss = "statement_blocks sel (preorder_all ns)"
  have "l \<in> set (declared_labels ?ss) \<longleftrightarrow> (\<exists>b \<in> set ?ss. explicit_label (snd (snd b)) = Some l)"
    by (rule declared_mem)
  moreover have "(\<exists>b \<in> set ?ss. explicit_label (snd (snd b)) = Some l) \<longleftrightarrow>
      label_to_node (visit_all sel (preorder_all ns)) l \<noteq> None"
  proof
    assume "\<exists>b \<in> set ?ss. explicit_label (snd (snd b)) = Some l"
    then show "label_to_node (visit_all sel (preorder_all ns)) l \<noteq> None"
      using label_to_node_complete by blast
  next
    assume "label_to_node (visit_all sel (preorder_all ns)) l \<noteq> None"
    then obtain n where "label_to_node (visit_all sel (preorder_all ns)) l = Some n" by auto
    from label_to_node_sound [OF this]
    show "\<exists>b \<in> set ?ss. explicit_label (snd (snd b)) = Some l" by blast
  qed
  ultimately show "l \<in> dom (p_label_to_node (parse_latex_structure ns sel)) \<longleftrightarrow> l \<in> set (declared_labels ?ss)"
    by (simp add: parse_fields dom_def)
qed

lemma label_to_node_no_empty: "label_to_node (visit_all sel bs) [] = None"
proof (cases "label_to_node (visit_all sel bs) []")
  case (Some n)
  from label_to_node_sound [OF this]
  have "\<exists>b \<in> set (statement_blocks sel bs). from_block n b \<and> explicit_label (snd (snd b)) = Some []"
    by simp
  then obtain b where "explicit_label (snd (snd b)) = Some []" by auto
  then have "([]::string) \<noteq> []" by (rule explicit_label_nonempty)
  then show ?thesis by simp
qed simp

lemma parse_depends_on_preorder:
  "preorder_all ns = preorder_all ns' \<Longrightarrow> parse_latex_structure ns sel = parse_latex_structure ns' sel"
  by (simp add: parse_latex_structure_def walk_all_visit_all)

section \<open>Properties of project expansion\<close>

lemma sub_tokens_grows:
  "grows repl \<Longrightarrow> sub_tokens repl ts V = Done (t, V') \<Longrightarrow> V \<subseteq> V'"
proof (induction ts arbitrary: V t)
  case Nil
  then show ?case by simp
next
  case (Cons a ts)
  show ?case
  proof (cases a)
    case (Chr c)
    with Cons.prems(2) obtain r where "sub_tokens repl ts V = Done (r, V')"
      by (auto split: outcome.splits)
    then show ?thesis using Cons.IH Cons.prems(1) by blast
  next
    case (Hit g)
    with Cons.prems(2) obtain out V1 r where a: "repl g V = Done (out, V1)"
      and b: "sub_tokens repl ts V1 = Done (r, V')"
      by (auto split: outcome.splits)
    from a Cons.prems(1) have "V \<subseteq> V1" unfolding grows_def by blast
    moreover from b have "V1 \<subseteq> V'" using Cons.IH Cons.prems(1) by blast
    ultimately show ?thesis by simp
  qed
qed

lemma re_sub_grows: "grows repl \<Longrightarrow> re_sub m repl text V = Done (t, V') \<Longrightarrow> V \<subseteq> V'"
  unfolding re_sub_def by (rule sub_tokens_grows)

lemma then_sub_Done:
  "then_sub r f = Done x \<Longrightarrow> \<exists>text st. r = Done (text, st) \<and> f text st = Done x"
  by (auto simp: then_sub_def split: outcome.splits)

lemma expand_grows:
  "expand fuel os inc path dir V = Done (t, V') \<Longrightarrow> V \<subseteq> V' \<and> abspath os path \<in> V'"
proof (induction fuel arbitrary: path dir V t V')
  case 0
  then show ?case by simp
next
  case (Suc fuel)
  let ?ap = "abspath os path"
  show ?case
  proof (cases "?ap \<in> V")
    case True
    with Suc.prems show ?thesis by (simp add: Let_def)
  next
    case False
    show ?thesis
    proof (cases "read_file os ?ap")
      case FileNotFound
      with False Suc.prems show ?thesis by (auto simp: Let_def)
    next
      case ReadError
      with False Suc.prems show ?thesis by (simp add: Let_def)
    next
      case (Content raw)
      define repl_import where "repl_import = (\<lambda>g v.
                    let inc_dir = norm_join os dir (fst g);
                        inc_path = ensure_tex_ext os (norm_join os inc_dir (snd g))
                    in expand fuel os inc inc_path inc_dir v)"
      define repl_input where "repl_input = (\<lambda>g v.
                    let rel = strip g;
                        inc_path = ensure_tex_ext os (norm_join os dir rel);
                        inc_dir = dirname os inc_path
                    in expand fuel os inc inc_path inc_dir v)"
      define repl_include where "repl_include = (\<lambda>g v.
                    let name = strip g;
                        base_name = basename os name
                    in if inc \<noteq> {} \<and> base_name \<notin> inc
                       then Done (skipped_marker name, v)
                       else (let inc_path = ensure_tex_ext os (norm_join os dir name);
                                 inc_dir = dirname os inc_path
                             in expand fuel os inc inc_path inc_dir v))"
      have g1: "grows repl_import"
        unfolding grows_def repl_import_def Let_def using Suc.IH by blast
      have g2: "grows repl_input"
        unfolding grows_def repl_input_def Let_def using Suc.IH by blast
      have g3: "grows repl_include"
        unfolding grows_def repl_include_def Let_def using Suc.IH by (auto split: if_splits)
      from Suc.prems False Content
      have chain: "then_sub (then_sub (then_sub (then_sub
                   (re_sub IMPORT_RX repl_import (strip_comments raw) (insert ?ap V))
                   (re_sub SUBIMPORT_RX repl_import))
                   (re_sub INPUT_BRACED_RX repl_input))
                   (re_sub INPUT_SPACEFORM_RX repl_input))
                   (re_sub INCLUDE_RX repl_include) = Done (t, V')"
        by (simp add: Let_def repl_import_def repl_input_def repl_include_def)
      from then_sub_Done [OF chain] obtain t4 V4 where
        c4: "then_sub (then_sub (then_sub
                   (re_sub IMPORT_RX repl_import (strip_comments raw) (insert ?ap V))
                   (re_sub SUBIMPORT_RX repl_import))
                   (re_sub INPUT_BRACED_RX repl_input))
                   (re_sub INPUT_SPACEFORM_RX repl_input) = Done (t4, V4)"
        and s5: "re_sub INCLUDE_RX repl_include t4 V4 = Done (t, V')" by blast
      from then_sub_Done [OF c4] obtain t3 V3 where
        c3: "then_sub (then_sub
                   (re_sub IMPORT_RX repl_import (strip_comments raw) (insert ?ap V))
                   (re_sub SUBIMPORT_RX repl_import))
                   (re_sub INPUT_BRACED_RX repl_input) = Done (t3, V3)"
        and s4: "re_sub INPUT_SPACEFORM_RX repl_input t3 V3 = Done (t4, V4)" by blast
      from then_sub_Done [OF c3] obtain t2 V2 where
        c2: "then_sub
                   (re_sub IMPORT_RX repl_import (strip_comments raw) (insert ?ap V))
                   (re_sub SUBIMPORT_RX repl_import) = Done (t2, V2)"
        and s3: "re_sub INPUT_BRACED_RX repl_input t2 V2 = Done (t3, V3)" by blast
      from then_sub_Done [OF c2] obtain t1 V1 where
        s1: "re_sub IMPORT_RX repl_import (strip_comments raw) (insert ?ap V) = Done (t1, V1)"
        and s2: "re_sub SUBIMPORT_RX repl_import t1 V1 = Done (t2, V2)" by blast
      have "insert ?ap V \<subseteq> V1" using re_sub_grows [OF g1 s1] .
      also have "V1 \<subseteq> V2" using re_sub_grows [OF g1 s2] .
      also have "V2 \<subseteq> V3" using re_sub_grows [OF g2 s3] .
      also have "V3 \<subseteq> V4" using re_sub_grows [OF g2 s4] .
      also have "V4 \<subseteq> V'" using re_sub_grows [OF g3 s5] .
      finally show ?thesis by simp
    qed
  qed
qed

lemma expand_visited:
  "abspath os path \<in> V \<Longrightarrow> expand (Suc fuel) os inc path dir V = Done ([], V)"
  by (simp add: Let_def)

lemma lit_not_backslash: "c \<noteq> backslash \<Longrightarrow> lit (backslash # name) (c # cs) = None"
  by (simp add: lit_def)

lemma matched_None: "matched s None = None"
  by (simp add: matched_def)

lemma led_matchers:
  "led_by_backslash IMPORT_RX" "led_by_backslash SUBIMPORT_RX" "led_by_backslash INPUT_BRACED_RX"
  "led_by_backslash INPUT_SPACEFORM_RX" "led_by_backslash INCLUDE_RX"
  by (simp_all add: led_by_backslash_def IMPORT_RX_def SUBIMPORT_RX_def two_args_def
        INPUT_BRACED_RX_def INPUT_SPACEFORM_RX_def INCLUDE_RX_def lit_not_backslash matched_None)

lemma scan_plain:
  "led_by_backslash m \<Longrightarrow> backslash \<notin> set p \<Longrightarrow>
     re_scan m b (p @ s) = map Chr p @ re_scan m (b \<and> p = []) s"
proof (induction p arbitrary: b)
  case Nil
  show ?case by simp
next
  case (Cons c p)
  then have "m b (c # p @ s) = None" by (auto simp: led_by_backslash_def)
  moreover have "re_scan m False (p @ s) = map Chr p @ re_scan m False s"
    using Cons.IH [of False] Cons.prems by simp
  ultimately show ?case by simp
qed

lemma scan_all_plain:
  "led_by_backslash m \<Longrightarrow> backslash \<notin> set t \<Longrightarrow> re_scan m b t = map Chr t"
  using scan_plain [of m t b "[]"] by simp

lemma sub_tokens_chrs:
  "sub_tokens f (map Chr p @ ts) st =
     (case sub_tokens f ts st of
        Done (r, st') \<Rightarrow> Done (p @ r, st')
      | Raised \<Rightarrow> Raised
      | OutOfFuel \<Rightarrow> OutOfFuel)"
  by (induction p) (simp_all split: outcome.splits)

lemma sub_tokens_all_chrs: "sub_tokens f (map Chr t) st = Done (t, st)"
  using sub_tokens_chrs [of f t "[]" st] by simp

lemma comment_none: "CHR ''%'' \<notin> set s \<Longrightarrow> COMMENT_RX b s = None"
  by (auto simp: COMMENT_RX_def split: list.splits)

lemma scan_no_comment: "CHR ''%'' \<notin> set s \<Longrightarrow> re_scan COMMENT_RX b s = map Chr s"
proof (induction s arbitrary: b)
  case Nil
  show ?case by simp
next
  case (Cons c s)
  then have "COMMENT_RX b (c # s) = None" by (intro comment_none) simp
  with Cons show ?case by simp
qed

lemma strip_comments_plain: "CHR ''%'' \<notin> set s \<Longrightarrow> strip_comments s = s"
proof -
  have "concat (map (\<lambda>t. case t of Chr c \<Rightarrow> [c] | Hit g \<Rightarrow> g) (map Chr s)) = s"
    by (induction s) simp_all
  moreover assume "CHR ''%'' \<notin> set s"
  ultimately show ?thesis by (simp add: strip_comments_def scan_no_comment)
qed

lemma input_hit:
  assumes "plain_name name"
  shows "INPUT_BRACED_RX b (macro ''input'' name @ s) = Some (name, length (macro ''input'' name))"
proof -
  from assms have ne: "name \<noteq> []" and nb: "CHR ''}'' \<notin> set name" by (simp_all add: plain_name_def)
  have tw: "takeWhile (\<lambda>x. x \<noteq> CHR ''}'') (name @ CHR ''}'' # s) = name"
    using nb by (auto simp: takeWhile_tail)
  have dw: "dropWhile (\<lambda>x. x \<noteq> CHR ''}'') (name @ CHR ''}'' # s) = CHR ''}'' # s"
    using nb by (induction name) auto
  show ?thesis
    using ne by (simp add: INPUT_BRACED_RX_def macro_def lit_def spaced_braced_def braced_def
        matched_def is_space_def tw dw)
qed

lemma import_miss:
  "IMPORT_RX b (backslash # ''input{'' @ r) = None" "SUBIMPORT_RX b (backslash # ''input{'' @ r) = None"
  by (simp_all add: IMPORT_RX_def SUBIMPORT_RX_def two_args_def lit_def matched_def)

lemma plain_parts:
  "plain s \<Longrightarrow> backslash \<notin> set s" "plain s \<Longrightarrow> CHR ''%'' \<notin> set s"
  "plain_name n \<Longrightarrow> backslash \<notin> set n" "plain_name n \<Longrightarrow> CHR ''%'' \<notin> set n"
  by (simp_all add: plain_def plain_name_def)

lemma scan_input_hit:
  assumes "backslash \<notin> set p" "backslash \<notin> set s" "plain_name name"
  shows "re_scan INPUT_BRACED_RX b (p @ macro ''input'' name @ s) = map Chr p @ Hit name # map Chr s"
proof -
  have "re_scan INPUT_BRACED_RX b (p @ macro ''input'' name @ s) =
      map Chr p @ re_scan INPUT_BRACED_RX (b \<and> p = []) (macro ''input'' name @ s)"
    by (rule scan_plain [OF led_matchers(3) assms(1)])
  also have "re_scan INPUT_BRACED_RX (b \<and> p = []) (macro ''input'' name @ s) =
      Hit name # re_scan INPUT_BRACED_RX False s"
  proof -
    let ?cs = "''input{'' @ name @ CHR ''}'' # s"
    have eq: "macro ''input'' name @ s = backslash # ?cs"
      by (simp add: macro_def)
    have len: "length (macro ''input'' name) = length name + 8"
      by (simp add: macro_def)
    have hit: "INPUT_BRACED_RX (b \<and> p = []) (backslash # ?cs) = Some (name, length name + 8)"
      using input_hit [OF assms(3), of "b \<and> p = []" s] unfolding eq len .
    have "re_scan INPUT_BRACED_RX (b \<and> p = []) (backslash # ?cs) =
        Hit name # re_scan INPUT_BRACED_RX False (drop (length name + 8 - 1) ?cs)"
      by (simp only: re_scan.simps hit option.case prod.case)
    moreover have "drop (length name + 8 - 1) ?cs = s" by (simp add: numeral_eq_Suc)
    ultimately show ?thesis unfolding eq by simp
  qed
  also have "re_scan INPUT_BRACED_RX False s = map Chr s"
    by (rule scan_all_plain [OF led_matchers(3) assms(2)])
  finally show ?thesis .
qed

lemma re_sub_free: "free_of m t \<Longrightarrow> re_sub m f t V = Done (t, V)"
  by (simp add: free_of_def re_sub_def sub_tokens_all_chrs)

lemma re_sub_one_hit:
  assumes "re_scan m True t = map Chr p @ Hit g # map Chr s" "f g V = Done (out, V')"
  shows "re_sub m f t V = Done (p @ out @ s, V')"
  unfolding re_sub_def assms(1)
  by (simp add: sub_tokens_chrs assms(2) sub_tokens_all_chrs)

lemma expand_single_input:
  assumes "abspath os path \<notin> V"
    and "read_file os (abspath os path) = Content raw"
    and "one_input (strip_comments raw) p name s"
    and "expand fuel os inc (resolve_input os dir name) (dirname os (resolve_input os dir name))
           (insert (abspath os path) V) = Done (out, V')"
    and "no_later_directive (p @ out @ s)"
  shows "expand (Suc fuel) os inc path dir V = Done (p @ out @ s, V')"
proof -
  let ?t = "strip_comments raw"
  let ?V1 = "insert (abspath os path) V"
  from assms(3) have f1: "free_of IMPORT_RX ?t" and f2: "free_of SUBIMPORT_RX ?t"
    and hit: "re_scan INPUT_BRACED_RX True ?t = map Chr p @ Hit name # map Chr s"
    by (simp_all add: one_input_def)
  from assms(5) have f4: "free_of INPUT_SPACEFORM_RX (p @ out @ s)"
    and f5: "free_of INCLUDE_RX (p @ out @ s)"
    by (simp_all add: no_later_directive_def)
  define repl_input where "repl_input = (\<lambda>g v.
                    let rel = strip g;
                        inc_path = ensure_tex_ext os (norm_join os dir rel);
                        inc_dir = dirname os inc_path
                    in expand fuel os inc inc_path inc_dir v)"
  have "repl_input name ?V1 = Done (out, V')"
    using assms(4) by (simp add: repl_input_def Let_def resolve_input_def)
  with hit have s3: "re_sub INPUT_BRACED_RX repl_input ?t ?V1 = Done (p @ out @ s, V')"
    by (rule re_sub_one_hit)
  have "then_sub (then_sub (then_sub (then_sub
          (re_sub IMPORT_RX f1 ?t ?V1)
          (re_sub SUBIMPORT_RX f2))
          (re_sub INPUT_BRACED_RX repl_input))
          (re_sub INPUT_SPACEFORM_RX f4))
          (re_sub INCLUDE_RX f5) = Done (p @ out @ s, V')" for f1 f2 f4 f5
    by (simp add: then_sub_def re_sub_free [OF f1] re_sub_free [OF f2] s3
          re_sub_free [OF f4] re_sub_free [OF f5])
  then show ?thesis
    using assms(1,2) by (simp add: Let_def repl_input_def)
qed

lemma plain_free:
  "led_by_backslash m \<Longrightarrow> backslash \<notin> set t \<Longrightarrow> free_of m t"
  by (simp add: free_of_def scan_all_plain)

lemma plain_one_input:
  assumes "plain p" "plain s" "plain_name name"
  shows "strip_comments (p @ macro ''input'' name @ s) = p @ macro ''input'' name @ s"
    and "one_input (p @ macro ''input'' name @ s) p name s"
proof -
  let ?raw = "p @ macro ''input'' name @ s"
  note nb = plain_parts(1) [OF assms(1)] plain_parts(1) [OF assms(2)] plain_parts(3) [OF assms(3)]
  define rest where "rest = ''input{'' @ name @ CHR ''}'' # s"
  have raw: "?raw = p @ backslash # rest"
    by (simp add: macro_def rest_def)
  have rest: "backslash \<notin> set rest"
    using nb by (simp add: backslash_def rest_def)
  have "CHR ''%'' \<notin> set ?raw"
    using plain_parts(2) [OF assms(1)] plain_parts(2) [OF assms(2)] plain_parts(4) [OF assms(3)]
    by (simp add: macro_def backslash_def)
  then show "strip_comments ?raw = ?raw" by (rule strip_comments_plain)
  have miss: "re_scan m True ?raw = map Chr ?raw"
    if "led_by_backslash m" "\<And>b. m b (backslash # rest) = None"
    for m :: "(string \<times> string) matcher"
  proof -
    have "re_scan m True (p @ backslash # rest) = map Chr p @ re_scan m (p = []) (backslash # rest)"
      using scan_plain [OF that(1) nb(1), of True] by simp
    also have "re_scan m (p = []) (backslash # rest) = Chr backslash # re_scan m False rest"
      by (simp add: that(2))
    also have "re_scan m False rest = map Chr rest"
      by (rule scan_all_plain [OF that(1) rest])
    finally show ?thesis unfolding raw by simp
  qed
  have "free_of IMPORT_RX ?raw"
    unfolding free_of_def by (rule miss [OF led_matchers(1)]) (unfold rest_def, rule import_miss(1))
  moreover have "free_of SUBIMPORT_RX ?raw"
    unfolding free_of_def by (rule miss [OF led_matchers(2)]) (unfold rest_def, rule import_miss(2))
  ultimately show "one_input ?raw p name s"
    by (simp add: one_input_def scan_input_hit [OF nb(1) nb(2) assms(3)])
qed

lemma plain_no_later: "backslash \<notin> set t \<Longrightarrow> no_later_directive t"
  by (simp add: no_later_directive_def plain_free led_matchers)

lemma re_sub_two_hits:
  assumes "re_scan m True t = map Chr p @ Hit g1 # map Chr mid @ Hit g2 # map Chr s"
    and "f g1 V = Done (out1, V1)" "f g2 V1 = Done (out2, V2)"
  shows "re_sub m f t V = Done (p @ out1 @ mid @ out2 @ s, V2)"
  unfolding re_sub_def assms(1)
  by (simp add: sub_tokens_chrs assms(2,3) sub_tokens_all_chrs)

lemma expand_two_inputs:
  assumes "abspath os path \<notin> V"
    and "read_file os (abspath os path) = Content raw"
    and "two_inputs (strip_comments raw) p name1 m name2 s"
    and "expand fuel os inc (resolve_input os dir name1) (dirname os (resolve_input os dir name1))
           (insert (abspath os path) V) = Done (out1, V1)"
    and "expand fuel os inc (resolve_input os dir name2) (dirname os (resolve_input os dir name2))
           V1 = Done (out2, V2)"
    and "no_later_directive (p @ out1 @ m @ out2 @ s)"
  shows "expand (Suc fuel) os inc path dir V = Done (p @ out1 @ m @ out2 @ s, V2)"
proof -
  let ?t = "strip_comments raw"
  let ?V0 = "insert (abspath os path) V"
  let ?res = "p @ out1 @ m @ out2 @ s"
  from assms(3) have f1: "free_of IMPORT_RX ?t" and f2: "free_of SUBIMPORT_RX ?t"
    and hit: "re_scan INPUT_BRACED_RX True ?t = map Chr p @ Hit name1 # map Chr m @ Hit name2 # map Chr s"
    by (simp_all add: two_inputs_def)
  from assms(6) have f4: "free_of INPUT_SPACEFORM_RX ?res" and f5: "free_of INCLUDE_RX ?res"
    by (simp_all add: no_later_directive_def)
  define repl_input where "repl_input = (\<lambda>g v.
                    let rel = strip g;
                        inc_path = ensure_tex_ext os (norm_join os dir rel);
                        inc_dir = dirname os inc_path
                    in expand fuel os inc inc_path inc_dir v)"
  have c1: "repl_input name1 ?V0 = Done (out1, V1)"
    using assms(4) by (simp add: repl_input_def Let_def resolve_input_def)
  have c2: "repl_input name2 V1 = Done (out2, V2)"
    using assms(5) by (simp add: repl_input_def Let_def resolve_input_def)
  have s3: "re_sub INPUT_BRACED_RX repl_input ?t ?V0 = Done (?res, V2)"
    using hit c1 c2 by (rule re_sub_two_hits)
  have "then_sub (then_sub (then_sub (then_sub
          (re_sub IMPORT_RX f1 ?t ?V0)
          (re_sub SUBIMPORT_RX f2))
          (re_sub INPUT_BRACED_RX repl_input))
          (re_sub INPUT_SPACEFORM_RX f4))
          (re_sub INCLUDE_RX f5) = Done (?res, V2)" for f1 f2 f4 f5
    by (simp add: then_sub_def re_sub_free [OF f1] re_sub_free [OF f2] s3
          re_sub_free [OF f4] re_sub_free [OF f5])
  then show ?thesis
    using assms(1,2) by (simp add: Let_def repl_input_def)
qed


text \<open>
  Two directives of one file that resolve to the same absolute path: the second is
  replaced by the empty string.
\<close>

lemma double_input_once:
  assumes "abspath os path \<notin> V"
    and "read_file os (abspath os path) = Content raw"
    and "two_inputs (strip_comments raw) p name1 m name2 s"
    and "expand (Suc fuel) os inc (resolve_input os dir name1) (dirname os (resolve_input os dir name1))
           (insert (abspath os path) V) = Done (out1, V1)"
    and "abspath os (resolve_input os dir name2) = abspath os (resolve_input os dir name1)"
    and "no_later_directive (p @ out1 @ m @ s)"
  shows "expand (Suc (Suc fuel)) os inc path dir V = Done (p @ out1 @ m @ s, V1)"
proof -
  from expand_grows [OF assms(4)] assms(5)
  have "abspath os (resolve_input os dir name2) \<in> V1" by simp
  then have "expand (Suc fuel) os inc (resolve_input os dir name2)
      (dirname os (resolve_input os dir name2)) V1 = Done ([], V1)"
    by (rule expand_visited)
  from expand_two_inputs [OF assms(1,2,3,4) this] assms(6) show ?thesis by simp
qed

lemma settled_simps:
  "settled V (Done (t, W)) = (V \<subseteq> W)" "settled V Raised" "\<not> settled V OutOfFuel"
  by (simp_all add: settled_def)

lemma sub_tokens_settled:
  assumes "\<And>g W. V \<subseteq> W \<Longrightarrow> settled W (repl g W)"
  shows "V \<subseteq> W \<Longrightarrow> settled W (sub_tokens repl ts W)"
proof (induction ts arbitrary: W)
  case Nil
  show ?case by (simp add: settled_simps)
next
  case (Cons a ts)
  show ?case
  proof (cases a)
    case (Chr c)
    from Cons.IH [OF Cons.prems] show ?thesis
      by (cases "sub_tokens repl ts W") (auto simp: Chr settled_simps)
  next
    case (Hit g)
    have r: "settled W (repl g W)" using assms Cons.prems by blast
    show ?thesis
    proof (cases "repl g W")
      case (Done x)
      obtain out W1 where x: "x = (out, W1)" by (cases x)
      with r Done have "W \<subseteq> W1" by (simp add: settled_simps)
      with Cons.prems have "V \<subseteq> W1" by simp
      from Cons.IH [OF this] \<open>W \<subseteq> W1\<close> show ?thesis
        by (cases "sub_tokens repl ts W1") (auto simp: Hit Done x settled_simps)
    next
      case Raised
      then show ?thesis by (simp add: Hit settled_simps)
    next
      case OutOfFuel
      with r show ?thesis by (simp add: settled_simps)
    qed
  qed
qed

lemma re_sub_settled:
  "(\<And>g W. V \<subseteq> W \<Longrightarrow> settled W (repl g W)) \<Longrightarrow> V \<subseteq> W \<Longrightarrow> settled W (re_sub m repl text W)"
  unfolding re_sub_def by (rule sub_tokens_settled)

lemma then_sub_settled:
  assumes "settled V r" "\<And>text W. V \<subseteq> W \<Longrightarrow> settled W (f text W)"
  shows "settled V (then_sub r f)"
proof (cases r)
  case (Done x)
  obtain t0 W where x: "x = (t0, W)" by (cases x)
  with assms(1) Done have VW: "V \<subseteq> W" by (simp add: settled_simps)
  from assms(2) [OF VW, of t0] VW show ?thesis
    by (cases "f t0 W") (auto simp: then_sub_def Done x settled_simps)
next
  case Raised
  then show ?thesis by (simp add: then_sub_def settled_simps)
next
  case OutOfFuel
  with assms(1) show ?thesis by (simp add: settled_simps)
qed

lemma card_unvisited:
  assumes "finite (readable os)" "a \<in> readable os" "a \<notin> V" "insert a V \<subseteq> W"
  shows "card (readable os - W) < card (readable os - V)"
proof (rule psubset_card_mono)
  show "finite (readable os - V)" using assms(1) by simp
  show "readable os - W \<subset> readable os - V" using assms(2,3,4) by auto
qed

lemma expand_settled:
  assumes "finite (readable os)"
  shows "card (readable os - V) < fuel \<Longrightarrow> settled V (expand fuel os inc path dir V)"
proof (induction fuel arbitrary: path dir V)
  case 0
  then show ?case by simp
next
  case (Suc fuel)
  let ?ap = "abspath os path"
  show ?case
  proof (cases "?ap \<in> V")
    case True
    then show ?thesis by (simp add: Let_def settled_simps)
  next
    case False
    show ?thesis
    proof (cases "read_file os ?ap")
      case FileNotFound
      with False show ?thesis by (auto simp: Let_def settled_simps)
    next
      case ReadError
      with False show ?thesis by (simp add: Let_def settled_simps)
    next
      case (Content raw)
      then have rd: "?ap \<in> readable os" by (auto simp: readable_def)
      have deeper: "settled W (expand fuel os inc q dq W)" if "insert ?ap V \<subseteq> W" for W q dq
      proof (rule Suc.IH)
        from card_unvisited [OF assms rd False that] Suc.prems
        show "card (readable os - W) < fuel" by simp
      qed
      define repl_import where "repl_import = (\<lambda>g v.
                    let inc_dir = norm_join os dir (fst g);
                        inc_path = ensure_tex_ext os (norm_join os inc_dir (snd g))
                    in expand fuel os inc inc_path inc_dir v)"
      define repl_input where "repl_input = (\<lambda>g v.
                    let rel = strip g;
                        inc_path = ensure_tex_ext os (norm_join os dir rel);
                        inc_dir = dirname os inc_path
                    in expand fuel os inc inc_path inc_dir v)"
      define repl_include where "repl_include = (\<lambda>g v.
                    let name = strip g;
                        base_name = basename os name
                    in if inc \<noteq> {} \<and> base_name \<notin> inc
                       then Done (skipped_marker name, v)
                       else (let inc_path = ensure_tex_ext os (norm_join os dir name);
                                 inc_dir = dirname os inc_path
                             in expand fuel os inc inc_path inc_dir v))"
      have g1: "settled W (repl_import g W)" if "insert ?ap V \<subseteq> W" for g W
        unfolding repl_import_def Let_def by (rule deeper [OF that])
      have g2: "settled W (repl_input g W)" if "insert ?ap V \<subseteq> W" for g W
        unfolding repl_input_def Let_def by (rule deeper [OF that])
      have g3: "settled W (repl_include g W)" if "insert ?ap V \<subseteq> W" for g W
        unfolding repl_include_def Let_def using deeper [OF that] by (simp add: settled_simps)
      have p1: "settled W (re_sub m repl_import t0 W)" if "insert ?ap V \<subseteq> W" for m t0 W
        using g1 that by (rule re_sub_settled [where V = "insert ?ap V"])
      have p2: "settled W (re_sub m repl_input t0 W)" if "insert ?ap V \<subseteq> W" for m t0 W
        using g2 that by (rule re_sub_settled [where V = "insert ?ap V"])
      have p3: "settled W (re_sub m repl_include t0 W)" if "insert ?ap V \<subseteq> W" for m t0 W
        using g3 that by (rule re_sub_settled [where V = "insert ?ap V"])
      have "settled (insert ?ap V) (re_sub IMPORT_RX repl_import (strip_comments raw) (insert ?ap V))"
        by (rule p1) simp
      then have "settled (insert ?ap V) (then_sub
                   (re_sub IMPORT_RX repl_import (strip_comments raw) (insert ?ap V))
                   (re_sub SUBIMPORT_RX repl_import))"
        by (rule then_sub_settled) (rule p1)
      then have "settled (insert ?ap V) (then_sub (then_sub
                   (re_sub IMPORT_RX repl_import (strip_comments raw) (insert ?ap V))
                   (re_sub SUBIMPORT_RX repl_import))
                   (re_sub INPUT_BRACED_RX repl_input))"
        by (rule then_sub_settled) (rule p2)
      then have "settled (insert ?ap V) (then_sub (then_sub (then_sub
                   (re_sub IMPORT_RX repl_import (strip_comments raw) (insert ?ap V))
                   (re_sub SUBIMPORT_RX repl_import))
                   (re_sub INPUT_BRACED_RX repl_input))
                   (re_sub INPUT_SPACEFORM_RX repl_input))"
        by (rule then_sub_settled) (rule p2)
      then have "settled (insert ?ap V) (then_sub (then_sub (then_sub (then_sub
                   (re_sub IMPORT_RX repl_import (strip_comments raw) (insert ?ap V))
                   (re_sub SUBIMPORT_RX repl_import))
                   (re_sub INPUT_BRACED_RX repl_input))
                   (re_sub INPUT_SPACEFORM_RX repl_input))
                   (re_sub INCLUDE_RX repl_include))"
        by (rule then_sub_settled) (rule p3)
      then have "settled V (then_sub (then_sub (then_sub (then_sub
                   (re_sub IMPORT_RX repl_import (strip_comments raw) (insert ?ap V))
                   (re_sub SUBIMPORT_RX repl_import))
                   (re_sub INPUT_BRACED_RX repl_input))
                   (re_sub INPUT_SPACEFORM_RX repl_input))
                   (re_sub INCLUDE_RX repl_include))"
        by (auto simp: settled_def split: outcome.splits)
      with False Content show ?thesis
        by (simp add: Let_def repl_import_def repl_input_def repl_include_def)
    qed
  qed
qed

text \<open>
  Expansion always comes to an end when finitely many files can be read, whatever the
  inclusion structure (cycles included): a recursion depth above the number of readable
  files is never used up, because every call that goes deeper has first added a readable
  file to the visited set.
\<close>

lemma expansion_terminates:
  assumes "finite (readable os)"
  shows "\<forall>fuel > card (readable os). load_and_expand fuel os main_path \<noteq> OutOfFuel"
proof (intro allI impI)
  fix fuel assume "card (readable os) < fuel"
  then have "settled {} (expand fuel os inc path dir {})" for inc path dir
    by (intro expand_settled [OF assms]) simp
  then have "expand fuel os inc path dir {} \<noteq> OutOfFuel" for inc path dir
    using settled_simps(3) by metis
  then show "load_and_expand fuel os main_path \<noteq> OutOfFuel"
    by (auto simp: load_and_expand_def Let_def split: read_result.splits outcome.splits)
qed



section \<open>The claims\<close>

text \<open>
  C1. A document whose environments are, in order, a definition block labelled D1, a
  theorem block labelled T1 and a proof block with \<^verbatim>\<open>\proves{T1}\<close> and
  \<^verbatim>\<open>\uses{D1}\<close> (end-to-end scenario 1), parsed with every category selected, gives
  exactly the two nodes D1 and T1, and graph assembly adds exactly one edge, from D1 to T1.
\<close>

theorem scenario1_graph:
  assumes "preorder_all nodelist = scenario1_blocks"
  shows "map label (p_nodes (parse_latex_structure nodelist UNIV)) = [''D1'', ''T1''] \<and>
         build_graph (parse_latex_structure nodelist UNIV) =
           \<lparr>node_calls = [''D1'', ''T1''], edge_calls = [(''D1'', ''T1'', Solid)]\<rparr>"
proof -
  have "preorder_all scenario1 = scenario1_blocks" by code_simp
  with assms have "parse_latex_structure nodelist UNIV = parse_latex_structure scenario1 UNIV"
    by (intro parse_depends_on_preorder) simp
  moreover have "map label (p_nodes (parse_latex_structure scenario1 UNIV)) = [''D1'', ''T1''] \<and>
      build_graph (parse_latex_structure scenario1 UNIV) =
        \<lparr>node_calls = [''D1'', ''T1''], edge_calls = [(''D1'', ''T1'', Solid)]\<rparr>"
    by code_simp
  ultimately show ?thesis by simp
qed

theorem scenario1_graph_witness:
  "preorder_all scenario1 = scenario1_blocks \<and>
   map label (p_nodes (parse_latex_structure scenario1 UNIV)) = [''D1'', ''T1''] \<and>
   build_graph (parse_latex_structure scenario1 UNIV) =
     \<lparr>node_calls = [''D1'', ''T1''], edge_calls = [(''D1'', ''T1'', Solid)]\<rparr>"
proof -
  have h: "preorder_all scenario1 = scenario1_blocks" by code_simp
  from scenario1_graph [OF h] h show ?thesis by simp
qed

text \<open>
  C2 (as amended). The labels of the statement nodes are the declared labels together
  with the synthesized ones. The synthesized labels are always pairwise distinct: two
  blocks without a \<^verbatim>\<open>\label\<close> directive get different labels, because their ordinals
  differ. All labels of a parse are pairwise distinct exactly when the declared labels are
  pairwise distinct and none of them equals a synthesized one.
\<close>

theorem labels_distinct_iff_declared_distinct:
  "distinct (synthesized_labels (statement_blocks sel (preorder_all nodelist))) \<and>
   set (map label (p_nodes (parse_latex_structure nodelist sel))) =
     set (declared_labels (statement_blocks sel (preorder_all nodelist))) \<union>
     set (synthesized_labels (statement_blocks sel (preorder_all nodelist))) \<and>
   (distinct (map label (p_nodes (parse_latex_structure nodelist sel))) \<longleftrightarrow>
      distinct (declared_labels (statement_blocks sel (preorder_all nodelist))) \<and>
      set (declared_labels (statement_blocks sel (preorder_all nodelist))) \<inter>
        set (synthesized_labels (statement_blocks sel (preorder_all nodelist))) = {})"
proof -
  let ?ss = "statement_blocks sel (preorder_all nodelist)"
  have d: "distinct (synthesized_labels ?ss)"
    by (rule synthesized_distinct) (rule distinct_statement_blocks)
  moreover have "set (map label (p_nodes (parse_latex_structure nodelist sel))) =
      set (declared_labels ?ss) \<union> set (synthesized_labels ?ss)"
    unfolding parse_node_labels by (rule block_label_set)
  moreover have "distinct (map label (p_nodes (parse_latex_structure nodelist sel))) \<longleftrightarrow>
      distinct (declared_labels ?ss) \<and> set (declared_labels ?ss) \<inter> set (synthesized_labels ?ss) = {}"
    unfolding parse_node_labels block_label_distinct using d by simp
  ultimately show ?thesis by simp
qed

text \<open>
  C2 as stated fails: two blocks that declare the same label give two nodes with that label.
\<close>

theorem duplicate_label_counterexample:
  "map label (p_nodes (parse_latex_structure dup_label_doc UNIV)) = [''A'', ''A'']"
  by code_simp

text \<open>
  C3 (as amended). For every proof of a parse: if it declares a target and that target is
  a key of the label table, its target ordinal is the ordinal of the node stored there;
  otherwise it keeps the fallback, the ordinal of the statement most recently recorded
  before the proof. The keys of the label table are the labels declared by
  \<^verbatim>\<open>\label\<close> directives of statement blocks. A proof left without target ordinal adds
  no edge.
\<close>

theorem proof_target_resolution:
  assumes "p \<in> set (p_proofs (parse_latex_structure nodelist sel))"
  shows "target_node_idx p =
           (case target_label p of
              None \<Rightarrow> preceding_statement (p_nodes (parse_latex_structure nodelist sel)) (pindex p)
            | Some t \<Rightarrow>
                (case p_label_to_node (parse_latex_structure nodelist sel) t of
                   None \<Rightarrow> preceding_statement (p_nodes (parse_latex_structure nodelist sel)) (pindex p)
                 | Some n \<Rightarrow> Some (index n))) \<and>
         dom (p_label_to_node (parse_latex_structure nodelist sel)) =
           set (declared_labels (statement_blocks sel (preorder_all nodelist))) \<and>
         (target_node_idx p = None \<longrightarrow>
            (\<forall>G. proof_step (parse_latex_structure nodelist sel) p G = G))"
proof (intro conjI impI allI)
  let ?st = "visit_all sel (preorder_all nodelist)"
  from assms obtain p0 where p0: "p0 \<in> set (proofs ?st)" and p: "p = resolve_proof (label_to_node ?st) p0"
    by (auto simp: parse_fields)
  have fb: "target_node_idx p0 = preceding_statement (nodes ?st) (pindex p0)"
    using p0 by (rule fallback_visit_all)
  show "target_node_idx p =
           (case target_label p of
              None \<Rightarrow> preceding_statement (p_nodes (parse_latex_structure nodelist sel)) (pindex p)
            | Some t \<Rightarrow>
                (case p_label_to_node (parse_latex_structure nodelist sel) t of
                   None \<Rightarrow> preceding_statement (p_nodes (parse_latex_structure nodelist sel)) (pindex p)
                 | Some n \<Rightarrow> Some (index n)))"
  proof (cases "target_label p0")
    case None
    with fb show ?thesis by (simp add: p resolve_proof_def parse_fields)
  next
    case (Some t)
    show ?thesis
    proof (cases "t = []")
      case True
      with Some fb show ?thesis
        by (simp add: p resolve_proof_def parse_fields label_to_node_no_empty)
    next
      case False
      with Some fb show ?thesis
        by (simp add: p resolve_proof_def parse_fields split: option.splits)
    qed
  qed
  show "dom (p_label_to_node (parse_latex_structure nodelist sel)) =
           set (declared_labels (statement_blocks sel (preorder_all nodelist)))"
    by (rule label_to_node_dom)
  fix G assume "target_node_idx p = None"
  then show "proof_step (parse_latex_structure nodelist sel) p G = G"
    by (simp add: proof_step_def)
qed

theorem proof_target_resolution_witness:
  "\<lparr>pindex = 2, target_label = Some ''T1'', uses = [''D1''], target_node_idx = Some 0\<rparr>
     \<in> set (p_proofs (parse_latex_structure override_doc UNIV)) \<and>
   preceding_statement (p_nodes (parse_latex_structure override_doc UNIV)) 2 = Some 1 \<and>
   map_option index (p_label_to_node (parse_latex_structure override_doc UNIV) ''T1'') = Some 0"
proof -
  have h: "\<lparr>pindex = 2, target_label = Some ''T1'', uses = [''D1''], target_node_idx = Some 0\<rparr>
     \<in> set (p_proofs (parse_latex_structure override_doc UNIV))"
    by code_simp
  have f: "preceding_statement (p_nodes (parse_latex_structure override_doc UNIV)) 2 = Some 1"
    by code_simp
  from proof_target_resolution [OF h] h f show ?thesis
    by (auto split: option.splits)
qed

text \<open>
  C3 as stated fails: a declared target equal to the synthesized label of a statement node
  does not replace the fallback. Here the node with ordinal 0 has label \<open>theorem:0\<close>, the
  proof declares that target, and its target ordinal stays 1.
\<close>

theorem synthetic_target_counterexample:
  "map label (p_nodes (parse_latex_structure synth_target_doc UNIV)) = [''theorem:0'', ''lemma:1''] \<and>
   map index (p_nodes (parse_latex_structure synth_target_doc UNIV)) = [0, 1] \<and>
   map target_label (p_proofs (parse_latex_structure synth_target_doc UNIV)) = [Some ''theorem:0''] \<and>
   map target_node_idx (p_proofs (parse_latex_structure synth_target_doc UNIV)) = [Some 1]"
  by code_simp

text \<open>
  C4. The i-th recognized block in pre-order, statement or proof, gets ordinal i: the
  ordinals of the statement nodes are those of the statement blocks, the ordinals of the
  proofs those of the proof blocks, both taken from the one numbering 0, 1, 2, ... of the
  recognized blocks. Hence each list of ordinals is strictly increasing, no ordinal occurs
  twice among nodes and proofs together, and together they are exactly the numbers below
  the count of recognized blocks.
\<close>

theorem ordinals_follow_preorder:
  "map index (p_nodes (parse_latex_structure nodelist sel)) =
     map fst (statement_blocks sel (preorder_all nodelist)) \<and>
   map pindex (p_proofs (parse_latex_structure nodelist sel)) =
     map fst (proof_blocks sel (preorder_all nodelist)) \<and>
   map fst (numbered sel (preorder_all nodelist)) = [0..<length (numbered sel (preorder_all nodelist))] \<and>
   sorted_wrt (<) (map index (p_nodes (parse_latex_structure nodelist sel))) \<and>
   sorted_wrt (<) (map pindex (p_proofs (parse_latex_structure nodelist sel))) \<and>
   distinct (map index (p_nodes (parse_latex_structure nodelist sel)) @
             map pindex (p_proofs (parse_latex_structure nodelist sel))) \<and>
   set (map index (p_nodes (parse_latex_structure nodelist sel))) \<union>
     set (map pindex (p_proofs (parse_latex_structure nodelist sel))) =
     {0..<length (numbered sel (preorder_all nodelist))}"
  unfolding parse_node_indices parse_proof_indices
  using numbered_fst sorted_statement_blocks sorted_proof_blocks distinct_blocks blocks_cover
  by blast

text \<open>
  C5. Document A holds, after comment stripping, exactly one inclusion directive, a braced
  \<^verbatim>\<open>\input\<close> that resolves to B, between the texts \<open>pa\<close> and \<open>sa\<close>; B likewise holds
  exactly one, resolving back to A, between \<open>pb\<close> and \<open>sb\<close>. With recursion depth 3 or
  more, expansion returns, raises nothing, and the result is A's text with the directive
  replaced by B's text, in which the directive back to A is replaced by the empty string:
  each file's content once.
\<close>

theorem cyclic_inclusion_terminates:
  assumes "abspath os main_path = pathA" "abspath os pathA = pathA"
    and "read_file os pathA = Content rawA"
    and "one_input (strip_comments rawA) pa nameB sa"
    and "abspath os (resolve_input os (dirname os pathA) nameB) = pathB"
    and "pathB \<noteq> pathA"
    and "read_file os pathB = Content rawB"
    and "one_input (strip_comments rawB) pb nameA sb"
    and "abspath os (resolve_input os (dirname os (resolve_input os (dirname os pathA) nameB)) nameA) = pathA"
    and "no_later_directive (pb @ sb)"
    and "no_later_directive (pa @ pb @ sb @ sa)"
    and "3 \<le> fuel"
  shows "load_and_expand fuel os main_path = Done (pa @ pb @ sb @ sa)"
proof -
  from assms(12) obtain k where fuel: "fuel = Suc (Suc (Suc k))"
    by (metis Suc_le_D numeral_3_eq_3 Suc_le_mono)
  let ?qB = "resolve_input os (dirname os pathA) nameB"
  let ?qA = "resolve_input os (dirname os ?qB) nameA"
  let ?inc = "collect_includeonly rawA"
  have again: "expand (Suc k) os ?inc ?qA (dirname os ?qA) (insert pathB {pathA}) =
      Done ([], insert pathB {pathA})"
    by (rule expand_visited) (simp add: assms(9))
  have B: "expand (Suc (Suc k)) os ?inc ?qB (dirname os ?qB) {pathA} =
      Done (pb @ [] @ sb, insert pathB {pathA})"
  proof (rule expand_single_input)
    show "abspath os ?qB \<notin> {pathA}" using assms(5,6) by simp
    show "read_file os (abspath os ?qB) = Content rawB" using assms(5,7) by simp
    show "one_input (strip_comments rawB) pb nameA sb" by (rule assms(8))
    show "expand (Suc k) os ?inc ?qA (dirname os ?qA) (insert (abspath os ?qB) {pathA}) =
        Done ([], insert pathB {pathA})"
      using again assms(5) by simp
    show "no_later_directive (pb @ [] @ sb)" using assms(10) by simp
  qed
  have A: "expand (Suc (Suc (Suc k))) os ?inc pathA (dirname os pathA) {} =
      Done (pa @ (pb @ sb) @ sa, insert pathB {pathA})"
  proof (rule expand_single_input)
    show "abspath os pathA \<notin> {}" by simp
    show "read_file os (abspath os pathA) = Content rawA" using assms(2,3) by simp
    show "one_input (strip_comments rawA) pa nameB sa" by (rule assms(4))
    show "expand (Suc (Suc k)) os ?inc ?qB (dirname os ?qB) (insert (abspath os pathA) {}) =
        Done (pb @ sb, insert pathB {pathA})"
      using B assms(2) by simp
    show "no_later_directive (pa @ (pb @ sb) @ sa)" using assms(11) by simp
  qed
  show ?thesis
    using A assms(1,3) by (simp add: load_and_expand_def Let_def fuel)
qed

theorem cyclic_inclusion_terminates_witness:
  "abspath cyclic_notes ''/p/A.tex'' = ''/p/A.tex'' \<and>
   read_file cyclic_notes ''/p/A.tex'' =
     Content (macro ''chapter'' ''One'' @ '' % start'' @ [newline] @ macro ''input'' ''B'' @ '' end of A'') \<and>
   one_input
     (strip_comments (macro ''chapter'' ''One'' @ '' % start'' @ [newline] @ macro ''input'' ''B'' @ '' end of A''))
     (macro ''chapter'' ''One'' @ '' '' @ [newline]) ''B'' '' end of A'' \<and>
   abspath cyclic_notes (resolve_input cyclic_notes (dirname cyclic_notes ''/p/A.tex'') ''B'') = ''/p/B.tex'' \<and>
   ''/p/B.tex'' \<noteq> ''/p/A.tex'' \<and>
   read_file cyclic_notes ''/p/B.tex'' =
     Content (begin_env ''lemma'' @ macro ''label'' ''L'' @ end_env ''lemma'' @ macro ''input'' ''A'') \<and>
   one_input
     (strip_comments (begin_env ''lemma'' @ macro ''label'' ''L'' @ end_env ''lemma'' @ macro ''input'' ''A''))
     (begin_env ''lemma'' @ macro ''label'' ''L'' @ end_env ''lemma'') ''A'' [] \<and>
   abspath cyclic_notes
     (resolve_input cyclic_notes
        (dirname cyclic_notes (resolve_input cyclic_notes (dirname cyclic_notes ''/p/A.tex'') ''B''))
        ''A'') = ''/p/A.tex'' \<and>
   no_later_directive ((begin_env ''lemma'' @ macro ''label'' ''L'' @ end_env ''lemma'') @ []) \<and>
   no_later_directive
     ((macro ''chapter'' ''One'' @ '' '' @ [newline]) @
      (begin_env ''lemma'' @ macro ''label'' ''L'' @ end_env ''lemma'') @ [] @ '' end of A'') \<and>
   (3::nat) \<le> 3 \<and>
   load_and_expand 3 cyclic_notes ''/p/A.tex'' =
     Done ((macro ''chapter'' ''One'' @ '' '' @ [newline]) @
           (begin_env ''lemma'' @ macro ''label'' ''L'' @ end_env ''lemma'') @ [] @ '' end of A'')"
proof -
  have h1: "abspath cyclic_notes ''/p/A.tex'' = ''/p/A.tex''" by code_simp
  have h2: "read_file cyclic_notes ''/p/A.tex'' =
     Content (macro ''chapter'' ''One'' @ '' % start'' @ [newline] @ macro ''input'' ''B'' @ '' end of A'')"
    by code_simp
  have h3: "one_input
     (strip_comments (macro ''chapter'' ''One'' @ '' % start'' @ [newline] @ macro ''input'' ''B'' @ '' end of A''))
     (macro ''chapter'' ''One'' @ '' '' @ [newline]) ''B'' '' end of A''"
    by code_simp
  have h4: "abspath cyclic_notes (resolve_input cyclic_notes (dirname cyclic_notes ''/p/A.tex'') ''B'') = ''/p/B.tex''"
    by code_simp
  have h5: "''/p/B.tex'' \<noteq> ''/p/A.tex''" by simp
  have h6: "read_file cyclic_notes ''/p/B.tex'' =
     Content (begin_env ''lemma'' @ macro ''label'' ''L'' @ end_env ''lemma'' @ macro ''input'' ''A'')"
    by code_simp
  have h7: "one_input
     (strip_comments (begin_env ''lemma'' @ macro ''label'' ''L'' @ end_env ''lemma'' @ macro ''input'' ''A''))
     (begin_env ''lemma'' @ macro ''label'' ''L'' @ end_env ''lemma'') ''A'' []"
    by code_simp
  have h8: "abspath cyclic_notes
     (resolve_input cyclic_notes
        (dirname cyclic_notes (resolve_input cyclic_notes (dirname cyclic_notes ''/p/A.tex'') ''B''))
        ''A'') = ''/p/A.tex''"
    by code_simp
  have h9: "no_later_directive ((begin_env ''lemma'' @ macro ''label'' ''L'' @ end_env ''lemma'') @ [])"
    by code_simp
  have h10: "no_later_directive
     ((macro ''chapter'' ''One'' @ '' '' @ [newline]) @
      (begin_env ''lemma'' @ macro ''label'' ''L'' @ end_env ''lemma'') @ [] @ '' end of A'')"
    by code_simp
  have h11: "(3::nat) \<le> 3" by simp
  from cyclic_inclusion_terminates [OF h1 h1 h2 h3 h4 h5 h6 h7 h8 h9 h10 h11]
  show ?thesis using h1 h2 h3 h4 h5 h6 h7 h8 h9 h10 by simp
qed

text \<open>
  C6. A label that is the label of no statement node is not in the label table, and no
  edge of the assembled graph has it as source or as target. Graph assembly has no failing
  branch: a lookup that finds nothing skips the edge.
\<close>

theorem unknown_label_no_edge:
  assumes "l \<notin> set (map label (p_nodes (parse_latex_structure nodelist sel)))"
  shows "p_label_to_node (parse_latex_structure nodelist sel) l = None \<and>
         (\<forall>e \<in> set (edge_calls (build_graph (parse_latex_structure nodelist sel))).
            fst e \<noteq> l \<and> fst (snd e) \<noteq> l)"
proof (intro conjI ballI)
  let ?r = "parse_latex_structure nodelist sel"
  show "p_label_to_node ?r l = None"
  proof (rule ccontr)
    assume "p_label_to_node ?r l \<noteq> None"
    then obtain n where n: "p_label_to_node ?r l = Some n" by auto
    then have "n \<in> set (p_nodes ?r)" "label n = l"
      using label_to_node_sound [of sel "preorder_all nodelist" l n] by (simp_all add: parse_fields)
    with assms show False by auto
  qed
  fix e assume "e \<in> set (edge_calls (build_graph ?r))"
  then have es: "edge_sound ?r e" using build_graph_sound [of ?r] by simp
  from es obtain a where a: "a \<in> ran (p_label_to_node ?r)" "fst e = label a"
    unfolding edge_sound_def by auto
  from es obtain b where b: "b \<in> ran (p_node_by_index ?r)" "fst (snd e) = label b"
    unfolding edge_sound_def by auto
  from a(1) have "a \<in> set (p_nodes ?r)" by (rule ran_label_to_node)
  with a(2) assms show "fst e \<noteq> l" by auto
  from b(1) have "b \<in> set (p_nodes ?r)" by (rule ran_node_by_index)
  with b(2) assms show "fst (snd e) \<noteq> l" by auto
qed

theorem unknown_label_no_edge_witness:
  "''Ghost'' \<notin> set (map label (p_nodes (parse_latex_structure dangling_doc UNIV))) \<and>
   p_label_to_node (parse_latex_structure dangling_doc UNIV) ''Ghost'' = None \<and>
   edge_calls (build_graph (parse_latex_structure dangling_doc UNIV)) = [(''T1'', ''T1'', Solid)]"
proof -
  have h: "''Ghost'' \<notin> set (map label (p_nodes (parse_latex_structure dangling_doc UNIV)))"
    by code_simp
  have e: "edge_calls (build_graph (parse_latex_structure dangling_doc UNIV)) = [(''T1'', ''T1'', Solid)]"
    by code_simp
  show ?thesis
    using h e unknown_label_no_edge [OF h] by simp
qed

text \<open>
  C7. With no category selected the parse has no statement node and the assembled graph
  has no node and no edge, whatever the document; the proof blocks are still recorded and
  numbered 0, 1, 2, ...
\<close>

theorem no_categories_empty_graph:
  "p_nodes (parse_latex_structure nodelist {}) = [] \<and>
   build_graph (parse_latex_structure nodelist {}) = \<lparr>node_calls = [], edge_calls = []\<rparr> \<and>
   map pindex (p_proofs (parse_latex_structure nodelist {})) =
     [0..<length (filter (\<lambda>b. fullmatch_alts PROOF_ALIAS (fst b)) (preorder_all nodelist))]"
proof -
  let ?r = "parse_latex_structure nodelist {}"
  have "map index (p_nodes ?r) = []"
    by (simp add: parse_node_indices statement_blocks_empty)
  then have nodes: "p_nodes ?r = []" by simp
  have nbi: "p_node_by_index ?r i = None" for i
  proof (cases "p_node_by_index ?r i")
    case (Some n)
    then have "n \<in> ran (p_node_by_index ?r)" by (rule ranI)
    then have "n \<in> set (p_nodes ?r)" by (rule ran_node_by_index)
    with nodes show ?thesis by simp
  qed simp
  have "uses_step ?r x G = G" for x G by (simp add: uses_step_def nbi)
  moreover have "proof_step ?r p G = G" for p G
    by (simp add: proof_step_def nbi split: option.splits)
  ultimately have "build_graph ?r = \<lparr>node_calls = [], edge_calls = []\<rparr>"
    by (simp add: build_graph_def Let_def fold_id nodes)
  moreover have "map pindex (p_proofs ?r) =
      [0..<length (filter (\<lambda>b. fullmatch_alts PROOF_ALIAS (fst b)) (preorder_all nodelist))]"
    by (simp add: parse_proof_indices proof_blocks_empty)
  ultimately show ?thesis using nodes by simp
qed

text \<open>
  C8 compares the parse of two different texts, the slices joined by the separator
  comment line and the spans alone. What a text parses to is decided by the LaTeX parser,
  whose result is the input of this model; nothing is stated about it here.
\<close>

text \<open>
  C9 (as amended). The keys of the label table are exactly the labels declared by
  \<^verbatim>\<open>\label\<close> directives of statement blocks, and the node stored under a key was
  recorded for the last statement block in traversal order that declares that key. So a
  reference equal to the synthesized label of an unlabeled statement resolves only when
  some statement declares that same string, and then to the declaring statement.
\<close>

theorem label_table_holds_declared_labels:
  "dom (p_label_to_node (parse_latex_structure nodelist sel)) =
     set (declared_labels (statement_blocks sel (preorder_all nodelist))) \<and>
   (\<forall>l n. p_label_to_node (parse_latex_structure nodelist sel) l = Some n \<longrightarrow>
      n \<in> set (p_nodes (parse_latex_structure nodelist sel)) \<and> label n = l \<and>
      (\<exists>b \<in> set (statement_blocks sel (preorder_all nodelist)).
         from_block n b \<and> explicit_label (snd (snd b)) = Some l) \<and>
      (\<forall>b \<in> set (statement_blocks sel (preorder_all nodelist)).
         explicit_label (snd (snd b)) = Some l \<longrightarrow> fst b \<le> index n))"
proof (intro conjI allI impI)
  show "dom (p_label_to_node (parse_latex_structure nodelist sel)) =
     set (declared_labels (statement_blocks sel (preorder_all nodelist)))"
    by (rule label_to_node_dom)
next
  fix l n assume "p_label_to_node (parse_latex_structure nodelist sel) l = Some n"
  then have "label_to_node (visit_all sel (preorder_all nodelist)) l = Some n"
    by (simp add: parse_fields)
  from label_to_node_sound [OF this]
  show "n \<in> set (p_nodes (parse_latex_structure nodelist sel))" "label n = l"
    "\<exists>b \<in> set (statement_blocks sel (preorder_all nodelist)).
         from_block n b \<and> explicit_label (snd (snd b)) = Some l"
    "\<forall>b \<in> set (statement_blocks sel (preorder_all nodelist)).
         explicit_label (snd (snd b)) = Some l \<longrightarrow> fst b \<le> index n"
    by (simp_all add: parse_fields)
qed

theorem label_table_holds_declared_labels_witness:
  "p_label_to_node (parse_latex_structure collision_doc UNIV) ''lem:1'' =
     Some \<lparr>canon = Lemma, env = ''lem'', label = ''lem:1'', index = 0\<rparr> \<and>
   \<lparr>canon = Lemma, env = ''lem'', label = ''lem:1'', index = 0\<rparr>
     \<in> set (p_nodes (parse_latex_structure collision_doc UNIV)) \<and>
   ''lem:1'' \<in> set (declared_labels (statement_blocks UNIV (preorder_all collision_doc)))"
proof -
  have h: "p_label_to_node (parse_latex_structure collision_doc UNIV) ''lem:1'' =
     Some \<lparr>canon = Lemma, env = ''lem'', label = ''lem:1'', index = 0\<rparr>"
    by code_simp
  from label_table_holds_declared_labels [of collision_doc UNIV] h
  show ?thesis by (auto simp: dom_def)
qed

text \<open>
  C9 as stated fails: the second block has no \<^verbatim>\<open>\label\<close> and gets the synthesized
  label \<open>lem:1\<close>, which the first block declares. The reference \<open>lem:1\<close> resolves (to
  the node with ordinal 0), replaces the proof's fallback target 1 and adds an edge.
\<close>

theorem synthetic_label_resolves_counterexample:
  "explicit_label (begin_env ''lem'' @ end_env ''lem'') = None \<and>
   map env (p_nodes (parse_latex_structure collision_doc UNIV)) = [''lem'', ''lem''] \<and>
   map index (p_nodes (parse_latex_structure collision_doc UNIV)) = [0, 1] \<and>
   map label (p_nodes (parse_latex_structure collision_doc UNIV)) = [''lem:1'', synthetic_label ''lem'' 1] \<and>
   map_option index (p_label_to_node (parse_latex_structure collision_doc UNIV) (synthetic_label ''lem'' 1)) = Some 0 \<and>
   map target_node_idx (p_proofs (parse_latex_structure collision_doc UNIV)) = [Some 0] \<and>
   edge_calls (build_graph (parse_latex_structure collision_doc UNIV)) = [(''lem:1'', ''lem:1'', Solid)]"
  by code_simp



end
